theory Spec2Isabelle
  imports Main "HOL-Library.AList"
begin

section \<open>Data model (shared/types.ts, server/manager.ts)\<close>

text \<open>
  The task manager of \<^verbatim>\<open>src/lib/server/manager.ts\<close> is embedded as explicit state passing:
  every method of the class \<^verbatim>\<open>TaskManager\<close> is a function from the manager's state to its
  new state. JavaScript runs each method call, each timer callback and each continuation of
  an awaited promise to completion before the next one starts, so each of them is one
  atomic step of the model.

  A JavaScript \<^verbatim>\<open>Map\<close> keeps its keys in insertion order, \<^verbatim>\<open>set\<close> on an existing key keeps
  the key's position and \<^verbatim>\<open>delete\<close> removes it: this is an association list with
  \<^const>\<open>AList.update\<close>, \<^const>\<open>AList.delete\<close> and \<^const>\<open>map_of\<close>.

  Numbers: timestamps (\<^verbatim>\<open>Date.now()\<close>), the progress counters and the last event id of a
  client are integers; event ids, generations and the two capacities are natural numbers
  (the loss of precision of a JavaScript number above \<open>2^53\<close> is outside the model).
\<close>

datatype TaskStatus = pending | running | completed | error | canceled | timed_out

datatype TaskProgress =
  TaskProgress (message: string) (current: "int option") (total: "int option")

datatype TaskState =
    Pending string
  | Running string "TaskProgress option"
  | Completed string int
  | Error string int string
  | Canceled string int
  | Timed_out string int

fun task_id :: "TaskState \<Rightarrow> string" where
  "task_id (Pending i) = i"
| "task_id (Running i p) = i"
| "task_id (Completed i t) = i"
| "task_id (Error i t e) = i"
| "task_id (Canceled i t) = i"
| "task_id (Timed_out i t) = i"

fun status :: "TaskState \<Rightarrow> TaskStatus" where
  "status (Pending i) = pending"
| "status (Running i p) = running"
| "status (Completed i t) = completed"
| "status (Error i t e) = error"
| "status (Canceled i t) = canceled"
| "status (Timed_out i t) = timed_out"

text \<open>The field \<^verbatim>\<open>lastRun\<close>, present in the four terminal variants only
  (\<^verbatim>\<open>"lastRun" in s\<close> is \<open>lastRun s \<noteq> None\<close>).\<close>

fun lastRun :: "TaskState \<Rightarrow> int option" where
  "lastRun (Pending i) = None"
| "lastRun (Running i p) = None"
| "lastRun (Completed i t) = Some t"
| "lastRun (Error i t e) = Some t"
| "lastRun (Canceled i t) = Some t"
| "lastRun (Timed_out i t) = Some t"

definition TERMINAL_STATUSES :: "TaskStatus set" where
  "TERMINAL_STATUSES = {completed, error, canceled, timed_out}"

text \<open>A registered task. The handler is a caller-supplied asynchronous function: the
  descriptor keeps a reference to it, and what the handler does while it runs (its calls of
  \<^verbatim>\<open>ctx.progress\<close>, its settlement) are steps of the environment, see \<open>action\<close> below.\<close>

record RegisteredTask =
  rt_id :: string
  handler :: nat
  timeout :: "int option"

record TaskUpdateEvent =
  taskId :: string
  ev_state :: TaskState
  eventId :: nat

text \<open>A subscriber callback: its identity (the function object) and how a call of it ends,
  returning normally (\<open>Inr ()\<close>) or throwing (\<open>Inl\<close> the thrown value). What a callback
  calls on the manager before it ends is the \<open>reentry\<close> of section
  \<open>Subscribers that call back into the manager\<close>.\<close>

type_synonym subscriber = "nat \<times> (TaskUpdateEvent \<Rightarrow> string + unit)"

text \<open>The closure that \<^verbatim>\<open>start\<close> builds for one execution of a handler: the task id, the
  generation it was launched with (captured by \<^verbatim>\<open>isStale\<close>) and its own
  \<^verbatim>\<open>AbortController\<close> (captured by \<^verbatim>\<open>ctx.isCanceled\<close>); \<open>settled\<close> records that the
  handler's promise has settled, which happens once.\<close>

record RunHandle =
  run_taskId :: string
  run_generation :: nat
  run_controller :: nat
  settled :: bool

datatype console_line =
    Warn_not_found string
  | Warn_already_running string
  | Error_task_failed string
  | Error_in_subscriber string

text \<open>
  The fields of the class, followed by the parts of the JavaScript runtime the class
  shares with its callers: the heap of \<^verbatim>\<open>AbortController\<close>s (\<open>controllers ! c\<close> is
  \<^verbatim>\<open>signal.aborted\<close> of controller \<open>c\<close>), the timers of \<^verbatim>\<open>setTimeout\<close> (the task id its callback
  captured, and whether the timer is still scheduled), the handler executions started so
  far, the log of subscriber calls and the console.
\<close>

record TaskManager =
  tasks :: "(string \<times> RegisteredTask) list"
  state :: "(string \<times> TaskState) list"
  subscribers :: "subscriber list"
  abortControllers :: "(string \<times> nat) list"
  runGeneration :: "(string \<times> nat) list"
  timeouts :: "(string \<times> nat) list"
  debug :: bool
  maxHistory :: nat
  eventBufferSize :: nat
  nextEventId :: nat
  eventBuffer :: "TaskUpdateEvent list"
  ringHead :: nat
  controllers :: "bool list"
  timers :: "(string \<times> bool) list"
  runs :: "RunHandle list"
  calls :: "(nat \<times> TaskUpdateEvent) list"
  console :: "console_line list"

record TaskManagerOptions =
  opt_debug :: "bool option"
  opt_maxHistory :: "nat option"
  opt_eventBufferSize :: "nat option"

definition new_TaskManager :: "TaskManagerOptions \<Rightarrow> TaskManager" where
  "new_TaskManager options =
     \<lparr> tasks = [], state = [], subscribers = [], abortControllers = [],
       runGeneration = [], timeouts = [],
       debug = (case opt_debug options of None \<Rightarrow> False | Some d \<Rightarrow> d),
       maxHistory = (case opt_maxHistory options of None \<Rightarrow> 0 | Some k \<Rightarrow> k),
       eventBufferSize = (case opt_eventBufferSize options of None \<Rightarrow> 0 | Some n \<Rightarrow> n),
       nextEventId = 1, eventBuffer = [], ringHead = 0,
       controllers = [], timers = [], runs = [], calls = [], console = [] \<rparr>"

section \<open>Operations\<close>

subsection \<open>register, getState, getAllStates, subscribe\<close>

datatype error_result = AlreadyRegistered string

definition register ::
  "string \<Rightarrow> nat \<Rightarrow> int option \<Rightarrow> TaskManager \<Rightarrow> error_result + TaskManager" where
  "register tid h opt_timeout m =
     (if map_of (tasks m) tid \<noteq> None then Inl (AlreadyRegistered tid)
      else Inr (m\<lparr> tasks := AList.update tid \<lparr> rt_id = tid, handler = h, timeout = opt_timeout \<rparr> (tasks m),
                   state := AList.update tid (Pending tid) (state m) \<rparr>))"

definition getState :: "string \<Rightarrow> TaskManager \<Rightarrow> TaskState option" where
  "getState tid m = map_of (state m) tid"

definition getAllStates :: "TaskManager \<Rightarrow> TaskState list" where
  "getAllStates m = map snd (state m)"

text \<open>\<^verbatim>\<open>Set.add\<close> of a function object already in the set changes nothing.\<close>

definition subscribe :: "subscriber \<Rightarrow> TaskManager \<Rightarrow> TaskManager" where
  "subscribe cb m =
     (if fst cb \<in> fst ` set (subscribers m) then m
      else m\<lparr> subscribers := subscribers m @ [cb] \<rparr>)"

definition unsubscribe :: "nat \<Rightarrow> TaskManager \<Rightarrow> TaskManager" where
  "unsubscribe sid m = m\<lparr> subscribers := filter (\<lambda>cb. fst cb \<noteq> sid) (subscribers m) \<rparr>"

subsection \<open>evictOldTasks\<close>

definition evict :: "string \<Rightarrow> TaskManager \<Rightarrow> TaskManager" where
  "evict tid m =
     m\<lparr> tasks := AList.delete tid (tasks m),
        state := AList.delete tid (state m),
        abortControllers := AList.delete tid (abortControllers m),
        runGeneration := AList.delete tid (runGeneration m),
        timeouts := AList.delete tid (timeouts m) \<rparr>"

text \<open>The loop over \<^verbatim>\<open>this.state\<close> that collects \<^verbatim>\<open>{id, lastRun}\<close> of the terminal tasks.\<close>

fun terminalTasks :: "(string \<times> TaskState) list \<Rightarrow> (string \<times> int) list" where
  "terminalTasks [] = []"
| "terminalTasks ((i, s) # rest) =
     (case lastRun s of
        Some t \<Rightarrow> if status s \<in> TERMINAL_STATUSES then (i, t) # terminalTasks rest
                  else terminalTasks rest
      | None \<Rightarrow> terminalTasks rest)"

text \<open>\<^verbatim>\<open>Array.prototype.sort\<close> is stable, as \<^const>\<open>sort_key\<close> is.\<close>

definition evictOldTasks :: "TaskManager \<Rightarrow> TaskManager" where
  "evictOldTasks m =
     (if maxHistory m = 0 then m
      else
        let tt = terminalTasks (state m) in
        if length tt \<le> maxHistory m then m
        else
          let toEvict = take (length tt - maxHistory m) (sort_key snd tt)
          in fold evict (map fst toEvict) m)"

subsection \<open>setState\<close>

text \<open>The replay ring. In the overwrite branch the source assigns
  \<^verbatim>\<open>eventBuffer[ringHead]\<close>; \<open>ringHead\<close> is below the length of a full buffer in every state
  the manager reaches (lemma \<open>ring_inv_exec\<close>), where the assignment is a list update.\<close>

definition bufferEvent :: "TaskUpdateEvent \<Rightarrow> TaskManager \<Rightarrow> TaskManager" where
  "bufferEvent event m =
     (if eventBufferSize m > 0 then
        if length (eventBuffer m) < eventBufferSize m
        then m\<lparr> eventBuffer := eventBuffer m @ [event] \<rparr>
        else m\<lparr> eventBuffer := (eventBuffer m)[ringHead m := event],
                ringHead := (ringHead m + 1) mod eventBufferSize m \<rparr>
      else m)"

text \<open>One turn of the loop over the subscribers: the call, and the \<^verbatim>\<open>catch\<close> that logs.
  This is the turn for a callback that does not call the manager while it runs; the turn
  for a callback that does is \<open>callSubscriber_re\<close> below, and the two agree when the callback
  makes no call (lemma \<open>callSubscriber_re_quiet\<close>).\<close>

definition callSubscriber :: "TaskUpdateEvent \<Rightarrow> subscriber \<Rightarrow> TaskManager \<Rightarrow> TaskManager" where
  "callSubscriber event cb m =
     (let m1 = m\<lparr> calls := calls m @ [(fst cb, event)] \<rparr>
      in case snd cb event of
           Inl e \<Rightarrow> m1\<lparr> console := console m1 @ [Error_in_subscriber e] \<rparr>
         | Inr u \<Rightarrow> m1)"

definition notifySubscribers :: "TaskUpdateEvent \<Rightarrow> TaskManager \<Rightarrow> TaskManager" where
  "notifySubscribers event m = fold (callSubscriber event) (subscribers m) m"

text \<open>The guard of \<^verbatim>\<open>setState\<close> on an externally terminated task.\<close>

definition rejected :: "TaskState \<Rightarrow> TaskState \<Rightarrow> bool" where
  "rejected cur newState \<longleftrightarrow>
     (status cur = canceled \<or> status cur = timed_out) \<and>
     status newState \<noteq> status cur \<and> status newState \<noteq> running"

text \<open>The accepted part of \<^verbatim>\<open>setState\<close> up to and including the subscriber loop.\<close>

definition emit :: "string \<Rightarrow> TaskState \<Rightarrow> TaskManager \<Rightarrow> TaskManager" where
  "emit tid newState m =
     (let m1 = m\<lparr> state := AList.update tid newState (state m) \<rparr>;
          event = \<lparr> taskId = tid, ev_state = newState, eventId = nextEventId m1 \<rparr>;
          m2 = m1\<lparr> nextEventId := nextEventId m1 + 1 \<rparr>
      in notifySubscribers event (bufferEvent event m2))"

definition setState :: "string \<Rightarrow> TaskState \<Rightarrow> TaskManager \<Rightarrow> TaskManager" where
  "setState tid newState m =
     (case map_of (state m) tid of
        None \<Rightarrow> m
      | Some cur \<Rightarrow>
          if rejected cur newState then m
          else
            let m4 = emit tid newState m
            in if status newState \<in> TERMINAL_STATUSES then evictOldTasks m4 else m4)"

subsection \<open>start, cancel, the timer callback\<close>

text \<open>The host's \<^verbatim>\<open>clearTimeout(handle)\<close> and \<^verbatim>\<open>controller.abort()\<close>.\<close>

definition unschedule :: "nat \<Rightarrow> (string \<times> bool) list \<Rightarrow> (string \<times> bool) list" where
  "unschedule h ts = (if h < length ts then ts[h := (fst (ts ! h), False)] else ts)"

definition abort :: "nat \<Rightarrow> bool list \<Rightarrow> bool list" where
  "abort c cs = cs[c := True]"

text \<open>The private method \<^verbatim>\<open>clearTimeout(taskId)\<close>; a timer handle is always truthy.\<close>

definition clearTimeout :: "string \<Rightarrow> TaskManager \<Rightarrow> TaskManager" where
  "clearTimeout tid m =
     (case map_of (timeouts m) tid of
        None \<Rightarrow> m
      | Some h \<Rightarrow> m\<lparr> timers := unschedule h (timers m),
                     timeouts := AList.delete tid (timeouts m) \<rparr>)"

text \<open>\<^verbatim>\<open>if (task.timeout)\<close>: an absent or zero timeout schedules no timer.\<close>

definition truthy :: "int option \<Rightarrow> bool" where
  "truthy t = (case t of None \<Rightarrow> False | Some n \<Rightarrow> n \<noteq> 0)"

definition start :: "string \<Rightarrow> TaskManager \<Rightarrow> TaskManager" where
  "start tid m =
     (case map_of (tasks m) tid of
        None \<Rightarrow> if debug m then m\<lparr> console := console m @ [Warn_not_found tid] \<rparr> else m
      | Some task \<Rightarrow>
         (case map_of (state m) tid of
            None \<Rightarrow> if debug m then m\<lparr> console := console m @ [Warn_not_found tid] \<rparr> else m
          | Some currentState \<Rightarrow>
              if status currentState = running
              then if debug m then m\<lparr> console := console m @ [Warn_already_running tid] \<rparr> else m
              else
                let c = length (controllers m);
                    m1 = m\<lparr> controllers := controllers m @ [False],
                            abortControllers := AList.update tid c (abortControllers m) \<rparr>;
                    generation = (case map_of (runGeneration m1) tid of None \<Rightarrow> 0 | Some g \<Rightarrow> g) + 1;
                    m2 = m1\<lparr> runGeneration := AList.update tid generation (runGeneration m1) \<rparr>;
                    m3 = clearTimeout tid m2;
                    m4 = setState tid (Running tid (Some (TaskProgress ''Starting...'' None None))) m3;
                    m5 = (if truthy (timeout task)
                          then m4\<lparr> timeouts := AList.update tid (length (timers m4)) (timeouts m4),
                                   timers := timers m4 @ [(tid, True)] \<rparr>
                          else m4)
                in m5\<lparr> runs := runs m5 @
                         [\<lparr> run_taskId = tid, run_generation = generation,
                            run_controller = c, settled = False \<rparr>] \<rparr>))"

definition cancel :: "string \<Rightarrow> int \<Rightarrow> TaskManager \<Rightarrow> TaskManager" where
  "cancel tid now m =
     (case map_of (abortControllers m) tid of
        None \<Rightarrow> m
      | Some c \<Rightarrow>
          let m1 = m\<lparr> controllers := abort c (controllers m),
                      abortControllers := AList.delete tid (abortControllers m) \<rparr>;
              m2 = clearTimeout tid m1
          in setState tid (Canceled tid now) m2)"

text \<open>The callback given to \<^verbatim>\<open>setTimeout\<close> in \<^verbatim>\<open>start\<close>, for the task id it captured.\<close>

definition timeoutCallback :: "string \<Rightarrow> int \<Rightarrow> TaskManager \<Rightarrow> TaskManager" where
  "timeoutCallback tid now m =
     (case map_of (state m) tid of
        None \<Rightarrow> m
      | Some s \<Rightarrow>
          if status s \<noteq> running then m
          else
            let m1 = (case map_of (abortControllers m) tid of
                        None \<Rightarrow> m
                      | Some c \<Rightarrow> m\<lparr> controllers := abort c (controllers m) \<rparr>);
                m2 = m1\<lparr> abortControllers := AList.delete tid (abortControllers m1),
                         timeouts := AList.delete tid (timeouts m1) \<rparr>
            in setState tid (Timed_out tid now) m2)"

text \<open>The event loop fires timer \<open>h\<close>: only a timer that is still scheduled fires, once.\<close>

definition timerFires :: "nat \<Rightarrow> int \<Rightarrow> TaskManager \<Rightarrow> TaskManager" where
  "timerFires h now m =
     (if h < length (timers m) \<and> snd (timers m ! h)
      then timeoutCallback (fst (timers m ! h)) now (m\<lparr> timers := unschedule h (timers m) \<rparr>)
      else m)"

subsection \<open>The handler's context and runTask\<close>

definition isStale :: "RunHandle \<Rightarrow> TaskManager \<Rightarrow> bool" where
  "isStale r m \<longleftrightarrow> map_of (runGeneration m) (run_taskId r) \<noteq> Some (run_generation r)"

definition isCanceled :: "RunHandle \<Rightarrow> TaskManager \<Rightarrow> bool" where
  "isCanceled r m \<longleftrightarrow> controllers m ! run_controller r"

definition ctx_progress ::
  "RunHandle \<Rightarrow> string \<Rightarrow> int option \<Rightarrow> int option \<Rightarrow> TaskManager \<Rightarrow> TaskManager" where
  "ctx_progress r msg cur tot m =
     (if isStale r m then m
      else case map_of (state m) (run_taskId r) of
             None \<Rightarrow> m
           | Some s \<Rightarrow>
               if status s \<noteq> running then m
               else setState (run_taskId r)
                      (Running (run_taskId r) (Some (TaskProgress msg cur tot))) m)"

text \<open>How the handler's promise settles: it resolves, or it rejects with an \<^verbatim>\<open>Error\<close>
  carrying a message (\<open>Some\<close>) or with any other value (\<open>None\<close>).\<close>

datatype outcome = Resolved | Rejected "string option"

definition error_message :: "string option \<Rightarrow> string" where
  "error_message e = (case e of Some msg \<Rightarrow> msg | None \<Rightarrow> ''Unknown error'')"

text \<open>The part of \<^verbatim>\<open>runTask\<close> after \<^verbatim>\<open>await task.handler(ctx)\<close>: the rest of the \<^verbatim>\<open>try\<close> block or
  the \<^verbatim>\<open>catch\<close> block, then the \<^verbatim>\<open>finally\<close> block.\<close>

definition runTask_settled :: "RunHandle \<Rightarrow> outcome \<Rightarrow> int \<Rightarrow> TaskManager \<Rightarrow> TaskManager" where
  "runTask_settled r out now m =
     (let tid = run_taskId r;
          m1 = (if \<not> isCanceled r m \<and> \<not> isStale r m
                then (case out of
                        Resolved \<Rightarrow> setState tid (Completed tid now) m
                      | Rejected e \<Rightarrow>
                          setState tid (Error tid now (error_message e))
                            (m\<lparr> console := console m @ [Error_task_failed tid] \<rparr>))
                else m)
      in if \<not> isStale r m1
         then clearTimeout tid (m1\<lparr> abortControllers := AList.delete tid (abortControllers m1) \<rparr>)
         else m1)"

subsection \<open>dispose\<close>

definition dispose :: "TaskManager \<Rightarrow> TaskManager" where
  "dispose m =
     m\<lparr> subscribers := [],
        controllers := fold abort (map snd (abortControllers m)) (controllers m),
        abortControllers := [],
        timers := fold unschedule (map snd (timeouts m)) (timers m),
        timeouts := [],
        tasks := [], state := [], runGeneration := [],
        eventBuffer := [], ringHead := 0 \<rparr>"

subsection \<open>getEventsSince\<close>

definition getCurrentEventId :: "TaskManager \<Rightarrow> int" where
  "getCurrentEventId m = int (nextEventId m) - 1"

text \<open>\<open>None\<close> is the source's \<^verbatim>\<open>undefined\<close>. The two reads of the buffer are in range in every
  state the manager reaches (lemma \<open>ring_inv_exec\<close>).\<close>

definition getEventsSince :: "int \<Rightarrow> TaskManager \<Rightarrow> TaskUpdateEvent list option" where
  "getEventsSince lastEventId m =
     (if eventBufferSize m = 0 then None
      else if length (eventBuffer m) = 0 then Some []
      else
        let len = length (eventBuffer m);
            oldestIdx = (if len < eventBufferSize m then 0 else ringHead m);
            oldest = eventBuffer m ! oldestIdx
        in if lastEventId < int (eventId oldest) - 1 then None
           else Some (filter (\<lambda>event. int (eventId event) > lastEventId)
                        (map (\<lambda>i. eventBuffer m ! ((oldestIdx + i) mod len)) [0..<len])))"

subsection \<open>The replay decision of createSSEHandler\<close>

text \<open>What the stream of \<^verbatim>\<open>createSSEHandler\<close> sends before it subscribes, each message with
  its \<^verbatim>\<open>id:\<close> field: the buffered updates when the client gave a last event id (a number)
  and \<^verbatim>\<open>getEventsSince\<close> can serve it, and otherwise one \<open>init\<close> message per task, all with
  the current event id.\<close>

datatype TaskSSEMessage = Init TaskState | Update string TaskState

definition initialMessages :: "int option \<Rightarrow> TaskManager \<Rightarrow> (int \<times> TaskSSEMessage) list" where
  "initialMessages lastEventId m =
     (case (case lastEventId of None \<Rightarrow> None | Some l \<Rightarrow> getEventsSince l m) of
        Some buffered \<Rightarrow>
          map (\<lambda>evt. (int (eventId evt), Update (taskId evt) (ev_state evt))) buffered
      | None \<Rightarrow> map (\<lambda>task. (getCurrentEventId m, Init task)) (getAllStates m))"

section \<open>Runs of the manager\<close>

text \<open>
  What can happen to a manager: the calls of its public methods, and the three kinds of
  asynchronous events, each naming the handler execution (an index into \<open>runs\<close>) or the
  timer (an index into \<open>timers\<close>) it belongs to. The calls that read the clock carry the
  value of \<^verbatim>\<open>Date.now()\<close>. A \<^verbatim>\<open>register\<close> that throws leaves the manager as it was.
\<close>

datatype action =
    Register string nat "int option"
  | Start string
  | Cancel string int
  | Subscribe subscriber
  | Unsubscribe nat
  | Progress nat string "int option" "int option"
  | Settles nat outcome int
  | TimerFires nat int
  | Dispose

fun step :: "action \<Rightarrow> TaskManager \<Rightarrow> TaskManager" where
  "step (Register tid h t) m = (case register tid h t m of Inl e \<Rightarrow> m | Inr m' \<Rightarrow> m')"
| "step (Start tid) m = start tid m"
| "step (Cancel tid now) m = cancel tid now m"
| "step (Subscribe cb) m = subscribe cb m"
| "step (Unsubscribe sid) m = unsubscribe sid m"
| "step (Progress r msg cur tot) m =
     (if r < length (runs m) then ctx_progress (runs m ! r) msg cur tot m else m)"
| "step (Settles r out now) m =
     (if r < length (runs m) \<and> \<not> settled (runs m ! r)
      then runTask_settled (runs m ! r) out now
             (m\<lparr> runs := (runs m)[r := (runs m ! r)\<lparr> settled := True \<rparr>] \<rparr>)
      else m)"
| "step (TimerFires h now) m = timerFires h now m"
| "step Dispose m = dispose m"

definition exec :: "action list \<Rightarrow> TaskManager \<Rightarrow> TaskManager" where
  "exec acts m = fold step acts m"


section \<open>Subscribers that call back into the manager\<close>




















section \<open>Auxiliary notions used in the statements\<close>

text \<open>Removing a list of keys from a \<^verbatim>\<open>Map\<close>.\<close>

definition keep :: "string list \<Rightarrow> (string \<times> 'v) list \<Rightarrow> (string \<times> 'v) list" where
  "keep ids al = filter (\<lambda>p. fst p \<notin> set ids) al"

text \<open>The ids that a call of \<^verbatim>\<open>evictOldTasks\<close> removes (\<open>toEvict\<close> of the source).\<close>

definition evicted :: "TaskManager \<Rightarrow> string list" where
  "evicted m =
     (if maxHistory m = 0 then []
      else
        let tt = terminalTasks (state m) in
        if length tt \<le> maxHistory m then []
        else map fst (take (length tt - maxHistory m) (sort_key snd tt)))"

text \<open>The event that an accepted \<^verbatim>\<open>setState\<close> builds, and the console lines of the
  subscribers that throw on it.\<close>

definition event_of :: "string \<Rightarrow> TaskState \<Rightarrow> TaskManager \<Rightarrow> TaskUpdateEvent" where
  "event_of tid newState m = \<lparr> taskId = tid, ev_state = newState, eventId = nextEventId m \<rparr>"

definition thrown :: "TaskUpdateEvent \<Rightarrow> subscriber list \<Rightarrow> console_line list" where
  "thrown e cbs =
     concat (map (\<lambda>cb. case snd cb e of Inl x \<Rightarrow> [Error_in_subscriber x] | Inr u \<Rightarrow> []) cbs)"

text \<open>A transition that \<^verbatim>\<open>setState\<close> does not return early from.\<close>

definition accepted :: "string \<Rightarrow> TaskState \<Rightarrow> TaskManager \<Rightarrow> bool" where
  "accepted tid newState m =
     (case map_of (state m) tid of None \<Rightarrow> False | Some cur \<Rightarrow> \<not> rejected cur newState)"

text \<open>The same manager with every subscriber replaced by one that returns normally.\<close>

definition silent :: "TaskManager \<Rightarrow> TaskManager" where
  "silent m = m\<lparr> subscribers := map (\<lambda>cb. (fst cb, \<lambda>e. Inr ())) (subscribers m) \<rparr>"

text \<open>Concrete managers on which the theorems below are instantiated.\<close>

definition m_canceled :: TaskManager where
  "m_canceled =
     exec [Subscribe (0, \<lambda>e. Inl ''boom''), Subscribe (1, \<lambda>e. Inr ()),
           Register ''a'' 0 None, Start ''a'', Cancel ''a'' 5]
       (new_TaskManager \<lparr> opt_debug = None, opt_maxHistory = None, opt_eventBufferSize = Some 2 \<rparr>)"

definition m_evicted :: TaskManager where
  "m_evicted =
     exec [Register ''a'' 0 None, Register ''b'' 1 None, Start ''a'', Cancel ''a'' 1,
           Start ''b'', Settles 1 Resolved 2]
       (new_TaskManager \<lparr> opt_debug = None, opt_maxHistory = Some 1, opt_eventBufferSize = None \<rparr>)"



text \<open>A step that calls the subscribers at most once, with a fresh event id.\<close>

definition emits :: "TaskManager \<Rightarrow> TaskManager \<Rightarrow> bool" where
  "emits m m' \<longleftrightarrow>
     subscribers m' = subscribers m \<and> eventBufferSize m' = eventBufferSize m \<and>
     (nextEventId m' = nextEventId m \<and> calls m' = calls m \<and>
      eventBuffer m' = eventBuffer m \<and> ringHead m' = ringHead m \<or>
      (\<exists>tid ns. nextEventId m' = nextEventId m + 1 \<and>
         calls m' = calls m @ map (\<lambda>cb. (fst cb, event_of tid ns m)) (subscribers m) \<and>
         eventBuffer m' = eventBuffer (bufferEvent (event_of tid ns m) m) \<and>
         ringHead m' = ringHead (bufferEvent (event_of tid ns m) m)))"

text \<open>The invariant of the replay ring: read from \<open>ringHead\<close> on, the buffer is in
  ascending order of event ids.\<close>

definition ring_inv :: "TaskManager \<Rightarrow> bool" where
  "ring_inv m \<longleftrightarrow>
     length (eventBuffer m) \<le> eventBufferSize m \<and>
     (length (eventBuffer m) < eventBufferSize m \<longrightarrow> ringHead m = 0) \<and>
     (ringHead m < length (eventBuffer m) \<or> ringHead m = 0) \<and>
     sorted_wrt (<) (map eventId (rotate (ringHead m) (eventBuffer m))) \<and>
     (\<forall>e \<in> set (eventBuffer m). eventId e < nextEventId m)"


definition m_ring :: TaskManager where
  "m_ring =
     exec [Register ''a'' 0 None, Start ''a'', Progress 0 ''p1'' None None,
           Progress 0 ''p2'' (Some 2) (Some 3), Progress 0 ''p3'' (Some 3) (Some 3)]
       (new_TaskManager \<lparr> opt_debug = None, opt_maxHistory = None, opt_eventBufferSize = Some 3 \<rparr>)"

text \<open>The number of tasks in a terminal status, and the invariant that bounds it.\<close>

definition terminal :: "string \<times> TaskState \<Rightarrow> bool" where
  "terminal p \<longleftrightarrow> status (snd p) \<in> TERMINAL_STATUSES"

definition terminal_count :: "TaskManager \<Rightarrow> nat" where
  "terminal_count m = length (filter terminal (state m))"

definition hist_inv :: "TaskManager \<Rightarrow> bool" where
  "hist_inv m \<longleftrightarrow>
     distinct (map fst (state m)) \<and>
     (0 < maxHistory m \<longrightarrow> terminal_count m \<le> maxHistory m)"


definition m_over :: TaskManager where
  "m_over =
     emit ''b'' (Completed ''b'' 2)
       (exec [Register ''a'' 0 None, Register ''b'' 1 None, Register ''c'' 2 (Some 100),
              Start ''a'', Cancel ''a'' 1, Start ''b'', Start ''c'']
          (new_TaskManager \<lparr> opt_debug = None, opt_maxHistory = Some 1, opt_eventBufferSize = None \<rparr>))"

text \<open>The stored status of a task, if it has a state entry.\<close>

definition statusOf :: "string \<Rightarrow> TaskManager \<Rightarrow> TaskStatus option" where
  "statusOf tid m = map_option status (getState tid m)"

text \<open>What the timer callback has done when it calls \<^verbatim>\<open>setState\<close>: the timer \<open>h\<close> has
  fired, the controller of the task is aborted and dropped, the timer reference is dropped.\<close>

definition timed_out_pre :: "nat \<Rightarrow> string \<Rightarrow> TaskManager \<Rightarrow> TaskManager" where
  "timed_out_pre h tid m =
     m\<lparr> timers := unschedule h (timers m),
        controllers := (case map_of (abortControllers m) tid of
                          None \<Rightarrow> controllers m | Some c \<Rightarrow> abort c (controllers m)),
        abortControllers := AList.delete tid (abortControllers m),
        timeouts := AList.delete tid (timeouts m) \<rparr>"

text \<open>A sequence of timers firing, each at its own time.\<close>

definition timer_actions :: "(nat \<times> int) list \<Rightarrow> action list" where
  "timer_actions fires = map (\<lambda>f. TimerFires (fst f) (snd f)) fires"


definition m_two :: TaskManager where
  "m_two =
     exec [Register ''c'' 0 (Some 100), Register ''d'' 1 (Some 50), Start ''c'', Start ''d'',
           Settles 0 Resolved 7]
       (new_TaskManager \<lparr> opt_debug = None, opt_maxHistory = None, opt_eventBufferSize = None \<rparr>)"

definition m_leak :: TaskManager where
  "m_leak =
     exec [Register ''c'' 0 (Some 100), Register ''d'' 1 None, Start ''d'', Cancel ''d'' 5,
           Start ''c'', Settles 1 Resolved 5]
       (new_TaskManager \<lparr> opt_debug = None, opt_maxHistory = Some 1, opt_eventBufferSize = None \<rparr>)"

text \<open>The ids evicted by a call of \<^verbatim>\<open>setState\<close>.\<close>

definition evicted_by :: "string \<Rightarrow> TaskState \<Rightarrow> TaskManager \<Rightarrow> string list" where
  "evicted_by tid ns m =
     (if accepted tid ns m \<and> status ns \<in> TERMINAL_STATUSES then evicted (emit tid ns m) else [])"

text \<open>The invariant that ties the controller and timer references to the task states:
  a task with a controller reference is running, a task with a state has a descriptor,
  and the references point into the heap of controllers and the table of timers.\<close>

definition ctrl_ok :: "string \<Rightarrow> TaskManager \<Rightarrow> bool" where
  "ctrl_ok k m \<longleftrightarrow>
     (\<forall>c. map_of (abortControllers m) k = Some c \<longrightarrow>
        statusOf k m = Some running \<and> c < length (controllers m)) \<and>
     (map_of (tasks m) k = None \<longrightarrow> map_of (state m) k = None) \<and>
     (\<forall>h. map_of (timeouts m) k = Some h \<longrightarrow> h < length (timers m))"

definition ctrl_inv :: "TaskManager \<Rightarrow> bool" where
  "ctrl_inv m \<longleftrightarrow> (\<forall>k. ctrl_ok k m)"




text \<open>The generations of the handler executions: every execution is at or below the
  stored generation of its task, and later executions of a task have greater generations.
  This holds as long as no generation counter is deleted.\<close>

definition run_key :: "RunHandle \<Rightarrow> string \<times> nat" where
  "run_key r = (run_taskId r, run_generation r)"

definition next_generation :: "string \<Rightarrow> (string \<times> nat) list \<Rightarrow> nat" where
  "next_generation tid rg = (case map_of rg tid of None \<Rightarrow> 0 | Some g \<Rightarrow> g) + 1"

definition gen_ok :: "(string \<times> nat) list \<Rightarrow> (string \<times> nat) list \<Rightarrow> bool" where
  "gen_ok ks rg \<longleftrightarrow>
     (\<forall>k \<in> set ks. \<exists>g. map_of rg (fst k) = Some g \<and> snd k \<le> g) \<and>
     (\<forall>i j. i < j \<and> j < length ks \<and> fst (ks ! i) = fst (ks ! j) \<longrightarrow> snd (ks ! i) < snd (ks ! j))"

definition gen_inv :: "TaskManager \<Rightarrow> bool" where
  "gen_inv m \<longleftrightarrow> gen_ok (map run_key (runs m)) (runGeneration m)"

definition m_restarted :: TaskManager where
  "m_restarted =
     exec [Subscribe (0, \<lambda>e. Inr ()), Register ''a'' 0 None, Register ''b'' 1 None,
           Start ''a'', Cancel ''a'' 1, Start ''a'', Settles 1 Resolved 2,
           Start ''b'', Settles 2 Resolved 3,
           Register ''a'' 0 None, Start ''a'']
       (new_TaskManager \<lparr> opt_debug = None, opt_maxHistory = Some 1, opt_eventBufferSize = None \<rparr>)"


text \<open>From \<open>m\<close> to \<open>m'\<close> the counter has not decreased, the log of subscriber calls has only
  been extended, and the calls added carry event ids from \<open>n\<close> on and below the new counter.\<close>

definition grows_from :: "nat \<Rightarrow> TaskManager \<Rightarrow> TaskManager \<Rightarrow> bool" where
  "grows_from n m m' \<longleftrightarrow>
     nextEventId m \<le> nextEventId m' \<and>
     (\<exists>new. calls m' = calls m @ new \<and>
        (\<forall>c \<in> set new. n \<le> eventId (snd c) \<and> eventId (snd c) < nextEventId m'))"









section \<open>Basic facts\<close>

lemma fold_callSubscriber:
  "fold (callSubscriber e) cbs m =
     m\<lparr> calls := calls m @ map (\<lambda>cb. (fst cb, e)) cbs,
        console := console m @ thrown e cbs \<rparr>"
proof (induction cbs arbitrary: m)
  case Nil
  show ?case by (simp add: thrown_def)
next
  case (Cons cb cbs)
  show ?case
    unfolding fold_simps o_apply Cons
    by (cases "snd cb e") (simp_all add: callSubscriber_def thrown_def)
qed

lemma keep_Nil [simp]: "keep [] al = al"
  by (simp add: keep_def)

lemma keep_Cons: "keep (i # ids) al = keep ids (AList.delete i al)"
  by (induction al) (auto simp: keep_def AList.delete_eq)

lemma map_of_keep: "map_of (keep ids al) k = (if k \<in> set ids then None else map_of al k)"
  by (induction al) (auto simp: keep_def)

lemma fold_evict:
  "fold evict ids m =
     m\<lparr> tasks := keep ids (tasks m), state := keep ids (state m),
        abortControllers := keep ids (abortControllers m),
        runGeneration := keep ids (runGeneration m),
        timeouts := keep ids (timeouts m) \<rparr>"
proof (induction ids arbitrary: m)
  case Nil
  show ?case by simp
next
  case (Cons i ids)
  show ?case
    unfolding fold_simps o_apply Cons
    by (simp add: keep_Cons evict_def)
qed

lemma evictOldTasks_eq:
  "evictOldTasks m =
     m\<lparr> tasks := keep (evicted m) (tasks m), state := keep (evicted m) (state m),
        abortControllers := keep (evicted m) (abortControllers m),
        runGeneration := keep (evicted m) (runGeneration m),
        timeouts := keep (evicted m) (timeouts m) \<rparr>"
proof -
  have "evictOldTasks m = fold evict (evicted m) m"
    by (simp add: evictOldTasks_def evicted_def Let_def)
  then show ?thesis
    by (simp add: fold_evict)
qed

lemma emit_eq:
  "emit tid ns m =
     m\<lparr> state := AList.update tid ns (state m),
        nextEventId := nextEventId m + 1,
        eventBuffer := eventBuffer (bufferEvent (event_of tid ns m) m),
        ringHead := ringHead (bufferEvent (event_of tid ns m) m),
        calls := calls m @ map (\<lambda>cb. (fst cb, event_of tid ns m)) (subscribers m),
        console := console m @ thrown (event_of tid ns m) (subscribers m) \<rparr>"
  by (simp add: emit_def Let_def notifySubscribers_def fold_callSubscriber event_of_def
        bufferEvent_def)

lemma setState_cases:
  "setState tid ns m =
     (if accepted tid ns m
      then if status ns \<in> TERMINAL_STATUSES then evictOldTasks (emit tid ns m) else emit tid ns m
      else m)"
  by (simp add: setState_def accepted_def Let_def split: option.split)

lemma clearTimeout_frame:
  "state (clearTimeout tid m) = state m"
  "nextEventId (clearTimeout tid m) = nextEventId m"
  "eventBuffer (clearTimeout tid m) = eventBuffer m"
  "ringHead (clearTimeout tid m) = ringHead m"
  "calls (clearTimeout tid m) = calls m"
  "tasks (clearTimeout tid m) = tasks m"
  "subscribers (clearTimeout tid m) = subscribers m"
  "abortControllers (clearTimeout tid m) = abortControllers m"
  "runGeneration (clearTimeout tid m) = runGeneration m"
  "controllers (clearTimeout tid m) = controllers m"
  "runs (clearTimeout tid m) = runs m"
  "console (clearTimeout tid m) = console m"
  "maxHistory (clearTimeout tid m) = maxHistory m"
  "eventBufferSize (clearTimeout tid m) = eventBufferSize m"
  "debug (clearTimeout tid m) = debug m"
  by (simp_all add: clearTimeout_def split: option.split)

lemma thrown_silent: "thrown e (map (\<lambda>cb. (fst cb, \<lambda>e. Inr ())) cbs) = []"
  by (induction cbs) (simp_all add: thrown_def)

section \<open>The transition guard of setState\<close>

text \<open>
  Claim C2. When the stored status of a task is \<open>canceled\<close> or \<open>timed_out\<close>, \<^verbatim>\<open>setState\<close>
  returns the manager unchanged (no state written, no event id consumed, no subscriber
  called) for every new state whose status differs from the stored one and is not
  \<open>running\<close>. A new state that is \<open>running\<close> or repeats the stored status is accepted: it is
  stored, it consumes the next event id, every subscriber is called with the event, and
  then the eviction policy runs if the new status is terminal (which is the only way the
  stored state can be missing afterwards).
\<close>

theorem setState_guard:
  "map_of (state m) tid = Some cur \<Longrightarrow> status cur = canceled \<or> status cur = timed_out \<Longrightarrow>
     (status newState \<noteq> status cur \<and> status newState \<noteq> running \<longrightarrow>
        setState tid newState m = m) \<and>
     (status newState = status cur \<or> status newState = running \<longrightarrow>
        setState tid newState m =
          (if status newState \<in> TERMINAL_STATUSES then evictOldTasks (emit tid newState m)
           else emit tid newState m) \<and>
        getState tid (emit tid newState m) = Some newState \<and>
        nextEventId (setState tid newState m) = nextEventId m + 1 \<and>
        calls (setState tid newState m) =
          calls m @
          map (\<lambda>cb. (fst cb, \<lparr> taskId = tid, ev_state = newState, eventId = nextEventId m \<rparr>))
            (subscribers m) \<and>
        (getState tid (setState tid newState m) = Some newState \<or>
         getState tid (setState tid newState m) = None \<and>
         tid \<in> set (evicted (emit tid newState m))))"
proof (intro conjI impI)
  assume cur: "map_of (state m) tid = Some cur"
    and ext: "status cur = canceled \<or> status cur = timed_out"
  {
    assume "status newState \<noteq> status cur \<and> status newState \<noteq> running"
    with cur ext show "setState tid newState m = m"
      by (simp add: setState_def rejected_def)
  }
  assume ok: "status newState = status cur \<or> status newState = running"
  with cur have acc: "accepted tid newState m"
    by (auto simp: accepted_def rejected_def)
  show "setState tid newState m =
          (if status newState \<in> TERMINAL_STATUSES then evictOldTasks (emit tid newState m)
           else emit tid newState m)"
    using acc by (simp add: setState_cases)
  show "getState tid (emit tid newState m) = Some newState"
    by (simp add: getState_def emit_eq update_conv')
  show "nextEventId (setState tid newState m) = nextEventId m + 1"
    using acc by (simp add: setState_cases evictOldTasks_eq emit_eq)
  show "calls (setState tid newState m) =
          calls m @
          map (\<lambda>cb. (fst cb, \<lparr> taskId = tid, ev_state = newState, eventId = nextEventId m \<rparr>))
            (subscribers m)"
    using acc by (simp add: setState_cases evictOldTasks_eq emit_eq event_of_def)
  show "getState tid (setState tid newState m) = Some newState \<or>
         getState tid (setState tid newState m) = None \<and>
         tid \<in> set (evicted (emit tid newState m))"
    using acc
    by (simp add: setState_cases evictOldTasks_eq getState_def map_of_keep update_conv'
          emit_eq[of tid newState m])
qed


theorem setState_guard_witness:
  "map_of (state m_canceled) ''a'' = Some (Canceled ''a'' 5) \<and>
   setState ''a'' (Completed ''a'' 9) m_canceled = m_canceled \<and>
   setState ''a'' (Error ''a'' 9 ''late'') m_canceled = m_canceled \<and>
   nextEventId (setState ''a'' (Running ''a'' None) m_canceled) = nextEventId m_canceled + 1 \<and>
   nextEventId (setState ''a'' (Canceled ''a'' 7) m_canceled) = nextEventId m_canceled + 1"
proof -
  have cur: "map_of (state m_canceled) ''a'' = Some (Canceled ''a'' 5)"
    by code_simp
  have ext: "status (Canceled ''a'' 5) = canceled \<or> status (Canceled ''a'' 5) = timed_out"
    by simp
  note g = setState_guard [OF cur ext]
  have 1: "setState ''a'' (Completed ''a'' 9) m_canceled = m_canceled"
    using g [of "Completed ''a'' 9", THEN conjunct1] by simp
  have 2: "setState ''a'' (Error ''a'' 9 ''late'') m_canceled = m_canceled"
    using g [of "Error ''a'' 9 ''late''", THEN conjunct1] by simp
  have "status (Running ''a'' None) = status (Canceled ''a'' 5) \<or>
        status (Running ''a'' None) = running"
    by simp
  from g [of "Running ''a'' None", THEN conjunct2, THEN mp, OF this]
  have 3: "nextEventId (setState ''a'' (Running ''a'' None) m_canceled) = nextEventId m_canceled + 1"
    by blast
  have "status (Canceled ''a'' 7) = status (Canceled ''a'' 5) \<or>
        status (Canceled ''a'' 7) = running"
    by simp
  from g [of "Canceled ''a'' 7", THEN conjunct2, THEN mp, OF this]
  have 4: "nextEventId (setState ''a'' (Canceled ''a'' 7) m_canceled) = nextEventId m_canceled + 1"
    by blast
  from cur 1 2 3 4 show ?thesis
    by (intro conjI)
qed

section \<open>A task without a state entry\<close>

text \<open>
  Claim C10. For a task id that has no entry in the state map, \<^verbatim>\<open>setState\<close> changes
  nothing at all. A handler execution of such a task that is still running cannot bring
  the entry back or emit an event: its \<^verbatim>\<open>ctx.progress\<close> changes nothing, and its
  settlement leaves the state map, the event counter, the replay buffer and the log of
  subscriber calls as they are.
\<close>

theorem setState_absent_noop:
  "getState tid m = None \<Longrightarrow>
     setState tid newState m = m \<and>
     (run_taskId r = tid \<longrightarrow>
        ctx_progress r msg cur tot m = m \<and>
        state (runTask_settled r out now m) = state m \<and>
        nextEventId (runTask_settled r out now m) = nextEventId m \<and>
        eventBuffer (runTask_settled r out now m) = eventBuffer m \<and>
        ringHead (runTask_settled r out now m) = ringHead m \<and>
        calls (runTask_settled r out now m) = calls m)"
  by (cases out)
     (simp_all add: getState_def setState_def ctx_progress_def runTask_settled_def
        Let_def clearTimeout_frame)


theorem setState_absent_noop_witness:
  "getState ''a'' m_evicted = None \<and>
   run_taskId (runs m_evicted ! 0) = ''a'' \<and>
   setState ''a'' (Completed ''a'' 9) m_evicted = m_evicted \<and>
   ctx_progress (runs m_evicted ! 0) ''late'' None None m_evicted = m_evicted \<and>
   state (runTask_settled (runs m_evicted ! 0) (Rejected None) 9 m_evicted) = state m_evicted \<and>
   calls (runTask_settled (runs m_evicted ! 0) (Rejected None) 9 m_evicted) = calls m_evicted"
proof -
  have gone: "getState ''a'' m_evicted = None"
    by code_simp
  have run: "run_taskId (runs m_evicted ! 0) = ''a''"
    by code_simp
  from gone run
    setState_absent_noop [OF gone, where r = "runs m_evicted ! 0"
        and newState = "Completed ''a'' 9" and msg = "''late''" and cur = None
        and tot = None and out = "Rejected None" and now = 9]
  show ?thesis
    by blast
qed

section \<open>register\<close>

text \<open>
  Claim C5. \<^verbatim>\<open>register\<close> throws when the id is already registered, whatever the options
  of the manager, and the manager is then unchanged. Otherwise it stores the descriptor
  and the state \<open>{id, status: "pending"}\<close>, which \<^verbatim>\<open>getState\<close> returns right away; no other
  field of the manager and no other task changes.
\<close>

theorem register_spec:
  "(map_of (tasks m) tid \<noteq> None \<longrightarrow>
      register tid h t m = Inl (AlreadyRegistered tid) \<and> step (Register tid h t) m = m) \<and>
   (map_of (tasks m) tid = None \<longrightarrow>
      (\<exists>m'. register tid h t m = Inr m' \<and>
         map_of (tasks m') tid = Some \<lparr> rt_id = tid, handler = h, timeout = t \<rparr> \<and>
         getState tid m' = Some (Pending tid) \<and>
         (\<forall>other. other \<noteq> tid \<longrightarrow>
            map_of (tasks m') other = map_of (tasks m) other \<and>
            getState other m' = getState other m) \<and>
         m' = m\<lparr> tasks := tasks m', state := state m' \<rparr>))"
  by (simp add: register_def getState_def update_conv')


theorem register_spec_witness:
  "map_of (tasks m_canceled) ''a'' \<noteq> None \<and>
   register ''a'' 3 (Some 50) m_canceled = Inl (AlreadyRegistered ''a'') \<and>
   map_of (tasks m_canceled) ''b'' = None \<and>
   (\<exists>m'. register ''b'' 3 (Some 50) m_canceled = Inr m' \<and>
      getState ''b'' m' = Some (Pending ''b''))"
proof -
  have dup: "map_of (tasks m_canceled) ''a'' \<noteq> None"
    by code_simp
  have fresh: "map_of (tasks m_canceled) ''b'' = None"
    by code_simp
  from dup fresh
      register_spec [of m_canceled "''a''" 3 "Some 50"]
      register_spec [of m_canceled "''b''" 3 "Some 50"]
  show ?thesis
    by blast
qed

section \<open>A subscriber that throws\<close>

text \<open>
  Claim C9. On every accepted transition each subscriber is called once with the event,
  in subscription order, whether or not some of them throw; what a subscriber throws is
  caught in the loop and ends as one console line, so \<^verbatim>\<open>setState\<close> returns normally; and
  the manager after the call is, but for the console, the manager that results when no
  subscriber throws: the stored state, the event counter, the replay buffer and the
  eviction are the same.
\<close>

theorem subscriber_failure_isolated:
  "map_of (state m) tid = Some cur \<Longrightarrow> \<not> rejected cur newState \<Longrightarrow>
     calls (setState tid newState m) =
       calls m @ map (\<lambda>cb. (fst cb, event_of tid newState m)) (subscribers m) \<and>
     console (setState tid newState m) =
       console m @ thrown (event_of tid newState m) (subscribers m) \<and>
     setState tid newState m =
       (setState tid newState (silent m))
         \<lparr> subscribers := subscribers m,
           console := console m @ thrown (event_of tid newState m) (subscribers m) \<rparr>"
  by (simp add: setState_def Let_def emit_eq evictOldTasks_eq silent_def evicted_def
        event_of_def bufferEvent_def thrown_silent comp_def)


theorem subscriber_failure_isolated_witness:
  "map_of (state m_canceled) ''a'' = Some (Canceled ''a'' 5) \<and>
   \<not> rejected (Canceled ''a'' 5) (Running ''a'' None) \<and>
   map fst (subscribers m_canceled) = [0, 1] \<and>
   snd (subscribers m_canceled ! 0) (event_of ''a'' (Running ''a'' None) m_canceled) = Inl ''boom'' \<and>
   calls (setState ''a'' (Running ''a'' None) m_canceled) =
     calls m_canceled @
     [(0, event_of ''a'' (Running ''a'' None) m_canceled),
      (1, event_of ''a'' (Running ''a'' None) m_canceled)]"
proof -
  have cur: "map_of (state m_canceled) ''a'' = Some (Canceled ''a'' 5)"
    by code_simp
  have ok: "\<not> rejected (Canceled ''a'' 5) (Running ''a'' None)"
    by (simp add: rejected_def)
  have subs: "map fst (subscribers m_canceled) = [0, 1]"
    by code_simp
  have boom: "snd (subscribers m_canceled ! 0) (event_of ''a'' (Running ''a'' None) m_canceled) = Inl ''boom''"
    by code_simp
  have "map (\<lambda>cb. (fst cb, e)) (subscribers m_canceled) = map (\<lambda>i. (i, e)) (map fst (subscribers m_canceled))" for e :: TaskUpdateEvent
    by (simp add: comp_def)
  then have "map (\<lambda>cb. (fst cb, e)) (subscribers m_canceled) = [(0, e), (1, e)]" for e :: TaskUpdateEvent
    by (simp only: subs list.map)
  with subscriber_failure_isolated [OF cur ok, THEN conjunct1]
  have "calls (setState ''a'' (Running ''a'' None) m_canceled) =
     calls m_canceled @
     [(0, event_of ''a'' (Running ''a'' None) m_canceled),
      (1, event_of ''a'' (Running ''a'' None) m_canceled)]"
    by simp
  with cur ok subs boom show ?thesis
    by (intro conjI)
qed

section \<open>Event ids\<close>

lemma setState_ids:
  "subscribers (setState tid ns m) = subscribers m"
  "eventBufferSize (setState tid ns m) = eventBufferSize m"
  "nextEventId (setState tid ns m) = (if accepted tid ns m then nextEventId m + 1 else nextEventId m)"
  "calls (setState tid ns m) =
     (if accepted tid ns m
      then calls m @ map (\<lambda>cb. (fst cb, event_of tid ns m)) (subscribers m) else calls m)"
  "eventBuffer (setState tid ns m) =
     (if accepted tid ns m then eventBuffer (bufferEvent (event_of tid ns m) m) else eventBuffer m)"
  "ringHead (setState tid ns m) =
     (if accepted tid ns m then ringHead (bufferEvent (event_of tid ns m) m) else ringHead m)"
  by (simp_all add: setState_cases evictOldTasks_eq emit_eq)

lemma emits_setState: "emits m (setState tid ns m)"
  by (auto simp: emits_def setState_ids)

lemma emits_refl: "emits m m"
  by (simp add: emits_def)

lemma emits_start: "emits m (start tid m)"
  unfolding start_def Let_def
  by (auto split: option.split simp: emits_refl emits_def setState_ids clearTimeout_frame event_of_def
        bufferEvent_def)

lemma emits_cancel: "emits m (cancel tid now m)"
  unfolding cancel_def Let_def
  by (auto split: option.split simp: emits_refl emits_def setState_ids clearTimeout_frame event_of_def
        bufferEvent_def)

lemma emits_timer: "emits m (timerFires h now m)"
  unfolding timerFires_def timeoutCallback_def Let_def
  by (auto split: option.split simp: emits_refl emits_def setState_ids clearTimeout_frame event_of_def
        bufferEvent_def)

lemma emits_progress: "emits m (ctx_progress r msg cur tot m)"
  unfolding ctx_progress_def Let_def
  by (auto split: option.split simp: emits_refl emits_def setState_ids clearTimeout_frame event_of_def
        bufferEvent_def)

lemma emits_settled: "emits m (runTask_settled r out now (m\<lparr> runs := rs \<rparr>))"
  unfolding runTask_settled_def Let_def
  by (cases out) (auto split: option.split simp: emits_refl emits_def setState_ids clearTimeout_frame event_of_def
        bufferEvent_def)


lemma emits_step:
  "emits m (step a m) \<or> (\<exists>cb. a = Subscribe cb) \<or> (\<exists>sid. a = Unsubscribe sid) \<or> a = Dispose"
proof (cases a)
  case (Register tid h t)
  then show ?thesis by (simp add: register_def emits_def)
next
  case (Settles r out now)
  then show ?thesis by (simp add: emits_refl emits_settled)
qed (simp_all add: emits_start emits_cancel emits_timer emits_progress emits_refl)






lemma exec_snoc: "exec (acts @ [a]) m = step a (exec acts m)"
  by (simp add: exec_def)


subsection \<open>Callbacks that make no call of the manager\<close>












subsection \<open>Callbacks that call the manager\<close>



lemma grows_from_left:
  "grows_from n m m' \<Longrightarrow> calls m0 = calls m \<Longrightarrow> nextEventId m0 \<le> nextEventId m \<Longrightarrow>
   grows_from n m0 m'"
  by (auto simp: grows_from_def)

lemma grows_from_right:
  "grows_from n m m' \<Longrightarrow> calls m1 = calls m' \<Longrightarrow> nextEventId m1 = nextEventId m' \<Longrightarrow>
   grows_from n m m1"
  by (auto simp: grows_from_def)

lemma grows_from_weaken: "grows_from n m m' \<Longrightarrow> k \<le> n \<Longrightarrow> grows_from k m m'"
  by (fastforce simp: grows_from_def)




































section \<open>The replay buffer\<close>

lemma rotate_overwrite:
  assumes h: "h < length xs"
  shows "rotate (Suc h mod length xs) (xs[h := e]) = drop (Suc h) xs @ take h xs @ [e]"
proof (cases "Suc h < length xs")
  case True
  then show ?thesis
    by (simp add: rotate_drop_take take_Suc_conv_app_nth)
next
  case False
  with h have "Suc h = length xs" by simp
  then show ?thesis
    using h by (simp add: rotate_drop_take upd_conv_take_nth_drop)
qed

lemma rotate_head:
  "h < length xs \<Longrightarrow> rotate h xs = xs ! h # drop (Suc h) xs @ take h xs"
  by (simp add: rotate_drop_take Cons_nth_drop_Suc)

lemma ring_inv_push:
  assumes inv: "ring_inv m"
    and size': "eventBufferSize m' = eventBufferSize m"
    and next': "nextEventId m' = nextEventId m + 1"
    and buf': "eventBuffer m' = eventBuffer (bufferEvent e m)"
    and head': "ringHead m' = ringHead (bufferEvent e m)"
    and e: "eventId e = nextEventId m"
  shows "ring_inv m'"
proof -
  let ?buf = "eventBuffer m" and ?h = "ringHead m" and ?n = "eventBufferSize m"
  from inv have len: "length ?buf \<le> ?n"
    and fill: "length ?buf < ?n \<Longrightarrow> ?h = 0"
    and head: "?h < length ?buf \<or> ?h = 0"
    and srt: "sorted_wrt (<) (map eventId (rotate ?h ?buf))"
    and old: "\<And>x. x \<in> set ?buf \<Longrightarrow> eventId x < nextEventId m"
    by (simp_all add: ring_inv_def)
  consider (off) "?n = 0" | (fill) "0 < ?n" "length ?buf < ?n" | (full) "0 < ?n" "length ?buf = ?n"
    using len by linarith
  then show ?thesis
  proof cases
    case off
    with inv show ?thesis
      by (auto simp: ring_inv_def size' next' buf' head' bufferEvent_def)
  next
    case fill
    then have "?h = 0" using \<open>length ?buf < ?n \<Longrightarrow> ?h = 0\<close> by simp
    with fill srt old show ?thesis
      by (auto simp: ring_inv_def size' next' buf' head' bufferEvent_def e
            sorted_wrt_append less_Suc_eq)
  next
    case full
    then have h: "?h < length ?buf" using head by auto
    have b: "eventBuffer m' = ?buf[?h := e]" and r: "ringHead m' = Suc ?h mod length ?buf"
      using full by (simp_all add: buf' head' bufferEvent_def)
    have rot: "rotate (ringHead m') (eventBuffer m') = drop (Suc ?h) ?buf @ take ?h ?buf @ [e]"
      unfolding b r by (rule rotate_overwrite [OF h])
    have "sorted_wrt (<) (map eventId (drop (Suc ?h) ?buf @ take ?h ?buf))"
      using srt by (simp add: rotate_head [OF h])
    moreover have "\<forall>x \<in> set (drop (Suc ?h) ?buf @ take ?h ?buf). eventId x < eventId e"
      using old by (auto simp: e dest: in_set_dropD in_set_takeD)
    ultimately have s: "sorted_wrt (<) (map eventId (rotate (ringHead m') (eventBuffer m')))"
      unfolding rot by (simp add: sorted_wrt_append del: map_append) (auto simp: sorted_wrt_append)
    have "\<forall>x \<in> set (eventBuffer m'). eventId x < nextEventId m'"
      unfolding b next' using old e
      by (auto dest!: subsetD [OF set_update_subset_insert] simp: less_Suc_eq)
    with s full h show ?thesis
      by (simp add: ring_inv_def size' b r)
  qed
qed

lemma ring_inv_emits: "ring_inv m \<Longrightarrow> emits m m' \<Longrightarrow> ring_inv m'"
  unfolding emits_def
proof (elim conjE disjE exE)
  assume "ring_inv m" "eventBufferSize m' = eventBufferSize m" "nextEventId m' = nextEventId m"
    "eventBuffer m' = eventBuffer m" "ringHead m' = ringHead m"
  then show "ring_inv m'" by (simp add: ring_inv_def)
next
  fix tid ns
  assume "ring_inv m" "eventBufferSize m' = eventBufferSize m" "nextEventId m' = nextEventId m + 1"
    "eventBuffer m' = eventBuffer (bufferEvent (event_of tid ns m) m)"
    "ringHead m' = ringHead (bufferEvent (event_of tid ns m) m)"
  then show "ring_inv m'"
    by (rule ring_inv_push) (simp add: event_of_def)
qed

lemma ring_inv_step: "ring_inv m \<Longrightarrow> ring_inv (step a m)"
  using emits_step [of m a]
proof (elim disjE exE)
  assume "ring_inv m" "emits m (step a m)"
  then show ?thesis by (rule ring_inv_emits)
next
  fix cb assume "ring_inv m" "a = Subscribe cb"
  then show ?thesis
    by (auto simp: ring_inv_def subscribe_def)
next
  fix sid assume "ring_inv m" "a = Unsubscribe sid"
  then show ?thesis
    by (auto simp: ring_inv_def unsubscribe_def)
next
  assume "ring_inv m" "a = Dispose"
  then show ?thesis
    by (auto simp: ring_inv_def dispose_def)
qed

lemma ring_inv_exec: "ring_inv (exec acts (new_TaskManager opts))"
proof (induction acts rule: rev_induct)
  case Nil
  show ?case by (simp add: exec_def ring_inv_def new_TaskManager_def)
next
  case (snoc a acts)
  then show ?case by (simp add: exec_snoc ring_inv_step)
qed


lemma loop_rotate:
  "xs \<noteq> [] \<Longrightarrow> map (\<lambda>i. xs ! ((n + i) mod length xs)) [0..<length xs] = rotate n xs"
  by (rule nth_equalityI) (simp_all add: nth_rotate)

lemma Min_strictly_sorted:
  "xs \<noteq> [] \<Longrightarrow> sorted_wrt (<) (map f xs) \<Longrightarrow> Min (f ` set xs) = (f (hd xs) :: nat)"
proof (cases xs)
  case Nil
  assume "xs \<noteq> []"
  with Nil show ?thesis by simp
next
  case (Cons x ys)
  assume "sorted_wrt (<) (map f xs)"
  with Cons have "\<forall>y \<in> set ys. f x < f y"
    by simp
  then have "Min (insert (f x) (f ` set ys)) = f x"
    by (intro Min_eqI) (auto intro: less_imp_le)
  with Cons show ?thesis by simp
qed

lemma getEventsSince_ring:
  assumes inv: "ring_inv m" and on: "0 < eventBufferSize m" and ne: "eventBuffer m \<noteq> []"
  shows "getEventsSince lastId m =
     (if lastId < int (Min (eventId ` set (eventBuffer m))) - 1 then None
      else Some (filter (\<lambda>e. lastId < int (eventId e)) (rotate (ringHead m) (eventBuffer m))))"
proof -
  let ?buf = "eventBuffer m" and ?h = "ringHead m"
  from inv have fill: "length ?buf < eventBufferSize m \<longrightarrow> ?h = 0"
    and srt: "sorted_wrt (<) (map eventId (rotate ?h ?buf))"
    and head: "?h < length ?buf \<or> ?h = 0"
    by (simp_all add: ring_inv_def)
  have idx: "(if length ?buf < eventBufferSize m then 0 else ?h) = ?h"
    using fill by simp
  have h: "?h < length ?buf"
    using head ne by auto
  have "Min (eventId ` set (rotate ?h ?buf)) = eventId (hd (rotate ?h ?buf))"
    using ne srt by (intro Min_strictly_sorted) simp_all
  then have oldest: "eventId (?buf ! ?h) = Min (eventId ` set ?buf)"
    using ne h by (simp add: hd_rotate_conv_nth)
  show ?thesis
    using on ne
    by (simp add: getEventsSince_def Let_def idx loop_rotate oldest)
qed

lemma getEventsSince_reachable:
  "m = exec acts (new_TaskManager opts) \<Longrightarrow>
     (eventBufferSize m = 0 \<longrightarrow> getEventsSince lastId m = None) \<and>
     (0 < eventBufferSize m \<longrightarrow>
        (getEventsSince lastId m = None \<longleftrightarrow>
           eventBuffer m \<noteq> [] \<and> lastId < int (Min (eventId ` set (eventBuffer m))) - 1) \<and>
        (\<forall>evs. getEventsSince lastId m = Some evs \<longrightarrow>
           sorted_wrt (<) (map eventId evs) \<and> distinct evs \<and>
           set evs = {e \<in> set (eventBuffer m). lastId < int (eventId e)}) \<and>
        (getCurrentEventId m \<le> lastId \<longrightarrow> getEventsSince lastId m = Some []))"
proof (intro conjI impI)
  assume "eventBufferSize m = 0"
  then show "getEventsSince lastId m = None"
    by (simp add: getEventsSince_def)
next
  assume m: "m = exec acts (new_TaskManager opts)" and on: "0 < eventBufferSize m"
  from m have inv: "ring_inv m"
    by (simp add: ring_inv_exec)
  let ?R = "rotate (ringHead m) (eventBuffer m)"
  have empty: "getEventsSince lastId m = Some []" if "eventBuffer m = []"
    using that on by (simp add: getEventsSince_def)
  note ring = getEventsSince_ring [OF inv on]
  from inv have srt: "sorted_wrt (<) (map eventId ?R)"
    and below: "\<forall>e \<in> set (eventBuffer m). eventId e < nextEventId m"
    by (simp_all add: ring_inv_def)
  show "getEventsSince lastId m = None \<longleftrightarrow>
      eventBuffer m \<noteq> [] \<and> lastId < int (Min (eventId ` set (eventBuffer m))) - 1"
    using empty ring by (cases "eventBuffer m = []") simp_all
  show "\<forall>evs. getEventsSince lastId m = Some evs \<longrightarrow>
      sorted_wrt (<) (map eventId evs) \<and> distinct evs \<and>
      set evs = {e \<in> set (eventBuffer m). lastId < int (eventId e)}"
  proof (cases "eventBuffer m = []")
    case True
    with empty show ?thesis by simp
  next
    case False
    have "distinct (map eventId ?R)"
      using srt by (simp add: strict_sorted_iff)
    then have "distinct ?R"
      by (simp only: distinct_map)
    with srt ring [OF False] show ?thesis
      by (auto simp: sorted_wrt_map sorted_wrt_filter split: if_splits)
  qed
  show "getEventsSince lastId m = Some []" if cur: "getCurrentEventId m \<le> lastId"
  proof (cases "eventBuffer m = []")
    case True
    with empty show ?thesis by simp
  next
    case False
    have all: "\<forall>e \<in> set (eventBuffer m). int (eventId e) \<le> lastId"
      using below cur by (auto simp: getCurrentEventId_def)
    have "Min (eventId ` set (eventBuffer m)) \<in> eventId ` set (eventBuffer m)"
      using False by (intro Min_in) simp_all
    with all have "int (Min (eventId ` set (eventBuffer m))) \<le> lastId"
      by auto
    moreover have "filter (\<lambda>e. lastId < int (eventId e)) ?R = []"
      using all by (auto simp: filter_empty_conv)
    ultimately show ?thesis
      using ring [OF False] by simp
  qed
qed


text \<open>
  Claim C7. In every state a manager reaches: with capacity 0, \<^verbatim>\<open>getEventsSince\<close> returns
  \<^verbatim>\<open>undefined\<close>; with a positive capacity it returns \<^verbatim>\<open>undefined\<close> exactly when the buffer
  holds an event and the client's last id is below the oldest buffered id minus one;
  whatever list it returns consists of exactly the buffered events with a greater id, each
  once, in ascending order of ids; and it returns the empty list when the client's last id
  is the current event id or beyond. The stream handler sends the full snapshot exactly
  when \<^verbatim>\<open>getEventsSince\<close> returns \<^verbatim>\<open>undefined\<close>, and otherwise the returned events as updates.
\<close>

theorem getEventsSince_spec:
  "m = exec acts (new_TaskManager opts) \<Longrightarrow>
     (eventBufferSize m = 0 \<longrightarrow> getEventsSince lastId m = None) \<and>
     (0 < eventBufferSize m \<longrightarrow>
        (getEventsSince lastId m = None \<longleftrightarrow>
           eventBuffer m \<noteq> [] \<and> lastId < int (Min (eventId ` set (eventBuffer m))) - 1) \<and>
        (\<forall>evs. getEventsSince lastId m = Some evs \<longrightarrow>
           sorted_wrt (<) (map eventId evs) \<and> distinct evs \<and>
           set evs = {e \<in> set (eventBuffer m). lastId < int (eventId e)}) \<and>
        (getCurrentEventId m \<le> lastId \<longrightarrow> getEventsSince lastId m = Some [])) \<and>
     (getEventsSince lastId m = None \<longrightarrow>
        initialMessages (Some lastId) m =
          map (\<lambda>task. (getCurrentEventId m, Init task)) (getAllStates m)) \<and>
     (\<forall>evs. getEventsSince lastId m = Some evs \<longrightarrow>
        initialMessages (Some lastId) m =
          map (\<lambda>evt. (int (eventId evt), Update (taskId evt) (ev_state evt))) evs)"
proof -
  assume "m = exec acts (new_TaskManager opts)"
  from getEventsSince_reachable [OF this, of lastId] show ?thesis
    by (simp add: initialMessages_def)
qed

theorem getEventsSince_spec_witness:
  "m_ring =
     exec [Register ''a'' 0 None, Start ''a'', Progress 0 ''p1'' None None,
           Progress 0 ''p2'' (Some 2) (Some 3), Progress 0 ''p3'' (Some 3) (Some 3)]
       (new_TaskManager \<lparr> opt_debug = None, opt_maxHistory = None, opt_eventBufferSize = Some 3 \<rparr>) \<and>
   0 < eventBufferSize m_ring \<and>
   map eventId (eventBuffer m_ring) = [4, 2, 3] \<and>
   getEventsSince 0 m_ring = None \<and>
   (eventBuffer m_ring \<noteq> [] \<and> 0 < int (Min (eventId ` set (eventBuffer m_ring))) - 1) \<and>
   getCurrentEventId m_ring \<le> 4 \<and>
   getEventsSince 4 m_ring = Some [] \<and>
   map_option (map eventId) (getEventsSince 2 m_ring) = Some [3, 4] \<and>
   set (the (getEventsSince 2 m_ring)) = {e \<in> set (eventBuffer m_ring). 2 < int (eventId e)} \<and>
   initialMessages (Some 0) m_ring = map (\<lambda>task. (getCurrentEventId m_ring, Init task)) (getAllStates m_ring)"
proof -
  have on: "0 < eventBufferSize m_ring"
    by code_simp
  have buf: "map eventId (eventBuffer m_ring) = [4, 2, 3]"
    by code_simp
  have gap: "getEventsSince 0 m_ring = None"
    by code_simp
  have cur: "getCurrentEventId m_ring \<le> 4"
    by code_simp
  have two: "map_option (map eventId) (getEventsSince 2 m_ring) = Some [3, 4]"
    by code_simp
  then obtain evs where evs: "getEventsSince 2 m_ring = Some evs"
    by auto
  note spec = getEventsSince_spec [OF m_ring_def, unfolded m_ring_def [symmetric]]
  from spec [of 0] on gap
  have 1: "eventBuffer m_ring \<noteq> [] \<and> 0 < int (Min (eventId ` set (eventBuffer m_ring))) - 1"
    by blast
  from spec [of 4] on cur have 2: "getEventsSince 4 m_ring = Some []"
    by blast
  from spec [of 2] on evs
  have "set evs = {e \<in> set (eventBuffer m_ring). 2 < int (eventId e)}"
    by blast
  with evs have 3: "set (the (getEventsSince 2 m_ring)) =
      {e \<in> set (eventBuffer m_ring). 2 < int (eventId e)}"
    by simp
  from spec [of 0] gap
  have 4: "initialMessages (Some 0) m_ring =
      map (\<lambda>task. (getCurrentEventId m_ring, Init task)) (getAllStates m_ring)"
    by blast
  from on buf gap cur two 1 2 3 4 show ?thesis
    unfolding m_ring_def [symmetric] by blast
qed

section \<open>Eviction of old tasks\<close>

lemma terminalTasks_eq:
  "terminalTasks st = map (\<lambda>p. (fst p, the (lastRun (snd p)))) (filter terminal st)"
proof (induction st)
  case Nil
  show ?case by simp
next
  case (Cons p st)
  obtain i s where p: "p = (i, s)" by (cases p)
  show ?case
    unfolding p using Cons
    by (cases s) (simp_all add: terminal_def TERMINAL_STATUSES_def)
qed

lemma length_terminalTasks: "length (terminalTasks (state m)) = terminal_count m"
  by (simp add: terminalTasks_eq terminal_count_def)

lemma fst_terminalTasks: "map fst (terminalTasks st) = map fst (filter terminal st)"
  by (simp add: terminalTasks_eq comp_def)

lemma terminalTasks_keep: "terminalTasks (keep ids st) = keep ids (terminalTasks st)"
  by (induction st) (simp_all add: terminalTasks_eq keep_def)

lemma keep_by_members:
  assumes dist: "distinct (map fst al)" and sub: "set ev \<subseteq> set al"
  shows "keep (map fst ev) al = filter (\<lambda>p. p \<notin> set ev) al"
proof -
  have "fst p \<in> fst ` set ev \<longleftrightarrow> p \<in> set ev" if "p \<in> set al" for p
  proof
    assume "fst p \<in> fst ` set ev"
    then obtain q where q: "q \<in> set ev" "fst q = fst p" by auto
    with sub have "q \<in> set al" by auto
    with dist that q have "q = p"
      by (metis eq_key_imp_eq_value prod.collapse)
    with q show "p \<in> set ev" by simp
  qed auto
  then show ?thesis
    by (auto simp: keep_def intro!: filter_cong)
qed

lemma length_keep_oldest:
  assumes dist: "distinct (map fst tt)" and j: "j \<le> length tt"
  shows "length (keep (map fst (take j (sort_key snd tt))) tt) = length tt - j"
proof -
  let ?ev = "take j (sort_key snd tt)"
  have dtt: "distinct tt"
    using dist by (simp add: distinct_map)
  then have dev: "distinct ?ev"
    by simp
  have sub: "set ?ev \<subseteq> set tt"
    using set_take_subset [of j "sort_key snd tt"] by simp
  have "length (keep (map fst ?ev) tt) = length (filter (\<lambda>p. p \<notin> set ?ev) tt)"
    by (simp add: keep_by_members [OF dist sub])
  also have "\<dots> = card (set tt - set ?ev)"
    using dtt by (simp add: distinct_length_filter Diff_eq Int_commute Collect_neg_eq)
  also have "\<dots> = card (set tt) - card (set ?ev)"
    using sub by (simp add: card_Diff_subset)
  also have "\<dots> = length tt - j"
    using dtt dev j by (simp add: distinct_card)
  finally show ?thesis .
qed

lemma terminal_count_evict:
  assumes dist: "distinct (map fst (state m))" and on: "0 < maxHistory m"
  shows "terminal_count (evictOldTasks m) = min (terminal_count m) (maxHistory m)"
proof -
  let ?tt = "terminalTasks (state m)"
  have dtt: "distinct (map fst ?tt)"
    using dist by (simp add: fst_terminalTasks distinct_map_filter)
  have "terminal_count (evictOldTasks m) = length (keep (evicted m) ?tt)"
    by (simp add: length_terminalTasks [symmetric] evictOldTasks_eq terminalTasks_keep)
  also have "\<dots> = min (length ?tt) (maxHistory m)"
    using on length_keep_oldest [OF dtt, of "length ?tt - maxHistory m"]
    by (simp add: evicted_def Let_def)
  finally show ?thesis
    by (simp add: length_terminalTasks)
qed


lemma in_terminalTasks:
  "(i, t) \<in> set (terminalTasks st) \<longleftrightarrow>
     (\<exists>s. (i, s) \<in> set st \<and> status s \<in> TERMINAL_STATUSES \<and> lastRun s = Some t)"
proof (induction st)
  case Nil
  show ?case by simp
next
  case (Cons p st)
  obtain k s where p: "p = (k, s)" by (cases p)
  show ?case
    unfolding p using Cons
    by (cases s) (auto simp: TERMINAL_STATUSES_def)
qed

lemma evicted_subset: "set (evicted m) \<subseteq> fst ` set (terminalTasks (state m))"
proof -
  have "set (take j (sort_key snd tt)) \<subseteq> set tt" for j and tt :: "(string \<times> int) list"
    using set_take_subset [of j "sort_key snd tt"] by simp
  then show ?thesis
    by (auto simp: evicted_def Let_def)
qed

lemma evicted_oldest:
  assumes dist: "distinct (map fst (state m))"
    and old: "(i, t) \<in> set (terminalTasks (state m))" "i \<in> set (evicted m)"
    and new: "(i', t') \<in> set (terminalTasks (state m))" "i' \<notin> set (evicted m)"
  shows "t \<le> t'"
proof -
  let ?tt = "terminalTasks (state m)"
  let ?S = "sort_key snd ?tt"
  define j where "j = length ?tt - maxHistory m"
  have ev: "evicted m = map fst (take j ?S)"
    using old(2) by (auto simp: evicted_def Let_def j_def split: if_splits)
  have dtt: "distinct (map fst ?tt)"
    using dist by (simp add: fst_terminalTasks distinct_map_filter)
  have sub: "set (take j ?S) \<subseteq> set ?tt"
    using set_take_subset [of j ?S] by simp
  from old(2) obtain q where q: "q \<in> set (take j ?S)" "fst q = i"
    by (auto simp: ev)
  with sub have "q \<in> set ?tt" by auto
  with dtt old(1) q have "q = (i, t)"
    by (metis eq_key_imp_eq_value prod.collapse)
  with q have 1: "(i, t) \<in> set (take j ?S)" by simp
  have "set ?tt = set (take j ?S) \<union> set (drop j ?S)"
    by (metis append_take_drop_id set_append set_sort)
  moreover have "(i', t') \<notin> set (take j ?S)"
    using new(2) by (force simp: ev)
  ultimately have 2: "(i', t') \<in> set (drop j ?S)"
    using new(1) by blast
  have "sorted (map snd (take j ?S) @ map snd (drop j ?S))"
    by (simp flip: map_append)
  with 1 2 show ?thesis
    by (force simp: sorted_append)
qed

lemma terminal_update_le:
  "\<not> terminal (k, v) \<Longrightarrow>
   length (filter terminal (AList.update k v al)) \<le> length (filter terminal al)"
  by (induction al) (auto simp: terminal_def)

lemma hist_inv_emit:
  assumes inv: "hist_inv m" and ns: "status ns \<notin> TERMINAL_STATUSES"
  shows "hist_inv (emit tid ns m)"
proof -
  have "terminal_count (emit tid ns m) \<le> terminal_count m"
    using ns by (simp add: terminal_count_def emit_eq terminal_update_le terminal_def)
  with inv show ?thesis
    by (auto simp: hist_inv_def emit_eq distinct_update)
qed

lemma hist_inv_evict:
  assumes dist: "distinct (map fst (state m))"
  shows "hist_inv (evictOldTasks m)"
proof -
  have "distinct (map fst (state (evictOldTasks m)))"
    using dist by (simp add: evictOldTasks_eq keep_def distinct_map_filter)
  moreover have "maxHistory (evictOldTasks m) = maxHistory m"
    by (simp add: evictOldTasks_eq)
  ultimately show ?thesis
    using terminal_count_evict [OF dist] by (simp add: hist_inv_def)
qed

lemma hist_inv_setState: "hist_inv m \<Longrightarrow> hist_inv (setState tid ns m)"
  by (auto simp: setState_cases hist_inv_emit intro!: hist_inv_evict)
     (simp add: hist_inv_def emit_eq distinct_update)

lemma hist_inv_frame:
  "state m' = state m \<Longrightarrow> maxHistory m' = maxHistory m \<Longrightarrow> hist_inv m' = hist_inv m"
  by (simp add: hist_inv_def terminal_count_def)

lemma hist_inv_upd [simp]:
  "hist_inv (m\<lparr> runs := rs \<rparr>) = hist_inv m"
  "hist_inv (m\<lparr> timers := tm \<rparr>) = hist_inv m"
  "hist_inv (m\<lparr> timeouts := ts \<rparr>) = hist_inv m"
  "hist_inv (m\<lparr> controllers := cs \<rparr>) = hist_inv m"
  "hist_inv (m\<lparr> abortControllers := ac \<rparr>) = hist_inv m"
  "hist_inv (m\<lparr> runGeneration := rg \<rparr>) = hist_inv m"
  "hist_inv (m\<lparr> console := c \<rparr>) = hist_inv m"
  "hist_inv (m\<lparr> subscribers := sb \<rparr>) = hist_inv m"
  "hist_inv (clearTimeout tid m) = hist_inv m"
  by (simp_all add: hist_inv_def terminal_count_def clearTimeout_frame)

lemma hist_inv_start: "hist_inv m \<Longrightarrow> hist_inv (start tid m)"
  unfolding start_def Let_def
  by (auto split: option.split intro!: hist_inv_setState)

lemma hist_inv_cancel: "hist_inv m \<Longrightarrow> hist_inv (cancel tid now m)"
  unfolding cancel_def Let_def
  by (auto split: option.split intro!: hist_inv_setState)

lemma hist_inv_timer: "hist_inv m \<Longrightarrow> hist_inv (timerFires h now m)"
  unfolding timerFires_def timeoutCallback_def Let_def
  by (auto split: option.split intro!: hist_inv_setState)

lemma hist_inv_progress: "hist_inv m \<Longrightarrow> hist_inv (ctx_progress r msg cur tot m)"
  unfolding ctx_progress_def
  by (auto split: option.split intro!: hist_inv_setState)

lemma hist_inv_settled: "hist_inv m \<Longrightarrow> hist_inv (runTask_settled r out now m)"
  unfolding runTask_settled_def Let_def
  by (cases out) (auto intro!: hist_inv_setState)

lemma hist_inv_step: "hist_inv m \<Longrightarrow> hist_inv (step a m)"
proof (cases a)
  case (Register tid h t)
  assume inv: "hist_inv m"
  let ?m' = "m\<lparr> tasks := AList.update tid \<lparr> rt_id = tid, handler = h, timeout = t \<rparr> (tasks m),
                 state := AList.update tid (Pending tid) (state m) \<rparr>"
  have "terminal_count ?m' \<le> terminal_count m"
    by (simp add: terminal_count_def terminal_update_le terminal_def TERMINAL_STATUSES_def)
  with inv have "hist_inv ?m'"
    by (auto simp: hist_inv_def distinct_update)
  with inv show ?thesis
    unfolding Register by (simp add: register_def)
next
  case (Subscribe cb)
  assume "hist_inv m"
  then show ?thesis
    unfolding Subscribe by (simp add: subscribe_def)
next
  case (Unsubscribe sid)
  assume "hist_inv m"
  then show ?thesis
    unfolding Unsubscribe by (simp add: unsubscribe_def)
next
  case Dispose
  show ?thesis
    unfolding Dispose by (simp add: dispose_def hist_inv_def terminal_count_def)
qed (simp_all add: hist_inv_start hist_inv_cancel hist_inv_timer hist_inv_progress
       hist_inv_settled)

lemma hist_inv_exec: "hist_inv (exec acts (new_TaskManager opts))"
proof (induction acts rule: rev_induct)
  case Nil
  show ?case by (simp add: exec_def hist_inv_def new_TaskManager_def terminal_count_def)
next
  case (snoc a acts)
  then show ?case by (simp add: exec_snoc hist_inv_step)
qed


text \<open>
  Claim C6. With \<open>maxHistory = K > 0\<close>, in every state a manager reaches, and after
  every \<^verbatim>\<open>setState\<close> from such a state, at most \<open>K\<close> tasks are in a terminal status. A call
  of \<^verbatim>\<open>evictOldTasks\<close> leaves \<open>min n K\<close> of \<open>n\<close> terminal tasks; every evicted id is gone from
  the descriptors, the states, the controller references, the generation counters and the
  timer references; an evicted task was in a terminal status and its \<^verbatim>\<open>lastRun\<close> is not
  later than that of any terminal task that stays; every other id keeps its five entries;
  and a task that is \<open>running\<close> or \<open>pending\<close> is never evicted.
\<close>

theorem eviction_spec:
  "(m = exec acts (new_TaskManager opts) \<and> 0 < maxHistory m \<longrightarrow>
      terminal_count m \<le> maxHistory m \<and>
      terminal_count (setState tid ns m) \<le> maxHistory m) \<and>
   (distinct (map fst (state m)) \<and> 0 < maxHistory m \<longrightarrow>
      terminal_count (evictOldTasks m) = min (terminal_count m) (maxHistory m) \<and>
      (\<forall>i \<in> set (evicted m).
         map_of (tasks (evictOldTasks m)) i = None \<and>
         map_of (state (evictOldTasks m)) i = None \<and>
         map_of (abortControllers (evictOldTasks m)) i = None \<and>
         map_of (runGeneration (evictOldTasks m)) i = None \<and>
         map_of (timeouts (evictOldTasks m)) i = None \<and>
         (\<exists>s t. map_of (state m) i = Some s \<and> status s \<in> TERMINAL_STATUSES \<and>
            lastRun s = Some t \<and>
            (\<forall>i' s' t'. i' \<notin> set (evicted m) \<and> map_of (state m) i' = Some s' \<and>
               status s' \<in> TERMINAL_STATUSES \<and> lastRun s' = Some t' \<longrightarrow> t \<le> t'))) \<and>
      (\<forall>i. i \<notin> set (evicted m) \<longrightarrow>
         map_of (tasks (evictOldTasks m)) i = map_of (tasks m) i \<and>
         map_of (state (evictOldTasks m)) i = map_of (state m) i \<and>
         map_of (abortControllers (evictOldTasks m)) i = map_of (abortControllers m) i \<and>
         map_of (runGeneration (evictOldTasks m)) i = map_of (runGeneration m) i \<and>
         map_of (timeouts (evictOldTasks m)) i = map_of (timeouts m) i) \<and>
      (\<forall>i s. map_of (state m) i = Some s \<and> (status s = running \<or> status s = pending) \<longrightarrow>
         i \<notin> set (evicted m)))"
proof (intro conjI impI; (elim conjE)?)
  assume m: "m = exec acts (new_TaskManager opts)" and on: "0 < maxHistory m"
  from m have inv: "hist_inv m"
    by (simp add: hist_inv_exec)
  with on show "terminal_count m \<le> maxHistory m"
    by (simp add: hist_inv_def)
  have "maxHistory (setState tid ns m) = maxHistory m"
    by (simp add: setState_cases evictOldTasks_eq emit_eq)
  with on hist_inv_setState [OF inv, of tid ns]
  show "terminal_count (setState tid ns m) \<le> maxHistory m"
    by (simp add: hist_inv_def)
next
  assume dist: "distinct (map fst (state m))" and on: "0 < maxHistory m"
  show "terminal_count (evictOldTasks m) = min (terminal_count m) (maxHistory m)"
    using dist on by (rule terminal_count_evict)
  show "\<forall>i. i \<notin> set (evicted m) \<longrightarrow>
         map_of (tasks (evictOldTasks m)) i = map_of (tasks m) i \<and>
         map_of (state (evictOldTasks m)) i = map_of (state m) i \<and>
         map_of (abortControllers (evictOldTasks m)) i = map_of (abortControllers m) i \<and>
         map_of (runGeneration (evictOldTasks m)) i = map_of (runGeneration m) i \<and>
         map_of (timeouts (evictOldTasks m)) i = map_of (timeouts m) i"
    by (simp add: evictOldTasks_eq map_of_keep)
  have evt: "\<exists>s t. map_of (state m) i = Some s \<and> status s \<in> TERMINAL_STATUSES \<and>
      lastRun s = Some t \<and> (i, t) \<in> set (terminalTasks (state m))"
    if "i \<in> set (evicted m)" for i
  proof -
    from that evicted_subset [of m] obtain t where t: "(i, t) \<in> set (terminalTasks (state m))"
      by auto
    then obtain s where "(i, s) \<in> set (state m)" "status s \<in> TERMINAL_STATUSES"
      "lastRun s = Some t"
      by (auto simp: in_terminalTasks)
    with dist t show ?thesis by auto
  qed
  show "\<forall>i s. map_of (state m) i = Some s \<and> (status s = running \<or> status s = pending) \<longrightarrow>
         i \<notin> set (evicted m)"
  proof (intro allI impI notI)
    fix i s
    assume s: "map_of (state m) i = Some s \<and> (status s = running \<or> status s = pending)"
      and "i \<in> set (evicted m)"
    from evt [OF this(2)] s show False
      by (auto simp: TERMINAL_STATUSES_def)
  qed
  show "\<forall>i \<in> set (evicted m).
         map_of (tasks (evictOldTasks m)) i = None \<and>
         map_of (state (evictOldTasks m)) i = None \<and>
         map_of (abortControllers (evictOldTasks m)) i = None \<and>
         map_of (runGeneration (evictOldTasks m)) i = None \<and>
         map_of (timeouts (evictOldTasks m)) i = None \<and>
         (\<exists>s t. map_of (state m) i = Some s \<and> status s \<in> TERMINAL_STATUSES \<and>
            lastRun s = Some t \<and>
            (\<forall>i' s' t'. i' \<notin> set (evicted m) \<and> map_of (state m) i' = Some s' \<and>
               status s' \<in> TERMINAL_STATUSES \<and> lastRun s' = Some t' \<longrightarrow> t \<le> t'))"
  proof
    fix i assume i: "i \<in> set (evicted m)"
    from evt [OF i] obtain s t where s: "map_of (state m) i = Some s"
      "status s \<in> TERMINAL_STATUSES" "lastRun s = Some t"
      and t: "(i, t) \<in> set (terminalTasks (state m))"
      by blast
    have "t \<le> t'" if "i' \<notin> set (evicted m)" "map_of (state m) i' = Some s'"
      "status s' \<in> TERMINAL_STATUSES" "lastRun s' = Some t'" for i' s' t'
    proof -
      from that have "(i', t') \<in> set (terminalTasks (state m))"
        by (auto simp: in_terminalTasks dest: map_of_SomeD)
      from dist t i this that(1) show ?thesis
        by (rule evicted_oldest)
    qed
    with s i show "map_of (tasks (evictOldTasks m)) i = None \<and>
         map_of (state (evictOldTasks m)) i = None \<and>
         map_of (abortControllers (evictOldTasks m)) i = None \<and>
         map_of (runGeneration (evictOldTasks m)) i = None \<and>
         map_of (timeouts (evictOldTasks m)) i = None \<and>
         (\<exists>s t. map_of (state m) i = Some s \<and> status s \<in> TERMINAL_STATUSES \<and>
            lastRun s = Some t \<and>
            (\<forall>i' s' t'. i' \<notin> set (evicted m) \<and> map_of (state m) i' = Some s' \<and>
               status s' \<in> TERMINAL_STATUSES \<and> lastRun s' = Some t' \<longrightarrow> t \<le> t'))"
      by (simp add: evictOldTasks_eq map_of_keep) blast
  qed
qed

theorem eviction_spec_witness:
  "m_evicted =
     exec [Register ''a'' 0 None, Register ''b'' 1 None, Start ''a'', Cancel ''a'' 1,
           Start ''b'', Settles 1 Resolved 2]
       (new_TaskManager \<lparr> opt_debug = None, opt_maxHistory = Some 1, opt_eventBufferSize = None \<rparr>) \<and>
   0 < maxHistory m_evicted \<and> terminal_count m_evicted \<le> maxHistory m_evicted \<and>
   distinct (map fst (state m_over)) \<and> 0 < maxHistory m_over \<and>
   terminal_count m_over = 2 \<and> evicted m_over = [''a''] \<and>
   terminal_count (evictOldTasks m_over) = min (terminal_count m_over) (maxHistory m_over) \<and>
   map_of (state (evictOldTasks m_over)) ''a'' = None \<and>
   map_of (runGeneration (evictOldTasks m_over)) ''a'' = None \<and>
   map_of (state (evictOldTasks m_over)) ''c'' = map_of (state m_over) ''c''"
proof -
  have on1: "0 < maxHistory m_evicted"
    by code_simp
  have dist: "distinct (map fst (state m_over))"
    by code_simp
  have on2: "0 < maxHistory m_over"
    by code_simp
  have cnt: "terminal_count m_over = 2"
    by code_simp
  have ev: "evicted m_over = [''a'']"
    by code_simp
  have a: "''a'' \<in> set (evicted m_over)" and c: "''c'' \<notin> set (evicted m_over)"
    by (simp_all add: ev)
  note reach = eviction_spec [where m = m_evicted and opts = "\<lparr> opt_debug = None,
    opt_maxHistory = Some 1, opt_eventBufferSize = None \<rparr>", THEN conjunct1,
    unfolded m_evicted_def [symmetric]]
  have 1: "terminal_count m_evicted \<le> maxHistory m_evicted"
    using reach [THEN mp, OF conjI, OF m_evicted_def on1] by blast
  have 2: "terminal_count (evictOldTasks m_over) = min (terminal_count m_over) (maxHistory m_over)"
    "map_of (state (evictOldTasks m_over)) ''a'' = None"
    "map_of (runGeneration (evictOldTasks m_over)) ''a'' = None"
    "map_of (state (evictOldTasks m_over)) ''c'' = map_of (state m_over) ''c''"
    using eviction_spec [where m = m_over, THEN conjunct2, THEN mp, OF conjI, OF dist on2] a c
    by blast+
  from on1 1 dist on2 cnt ev 2 show ?thesis
    unfolding m_evicted_def [symmetric] by blast
qed

section \<open>The timeout timer\<close>

lemma setState_other:
  "tid \<noteq> tid' \<Longrightarrow>
   map_of (state (setState tid' ns m)) tid = map_of (state m) tid \<or>
   map_of (state (setState tid' ns m)) tid = None"
  by (simp add: setState_cases evictOldTasks_eq emit_eq map_of_keep update_conv')

lemma setState_self:
  "accepted tid ns m \<Longrightarrow>
   map_of (state (setState tid ns m)) tid = Some ns \<or>
   map_of (state (setState tid ns m)) tid = None"
  by (simp add: setState_cases evictOldTasks_eq emit_eq map_of_keep update_conv')

lemma setState_maps:
  "map_of (abortControllers m) tid = None \<Longrightarrow> map_of (abortControllers (setState tid' ns m)) tid = None"
  "map_of (timeouts m) tid = None \<Longrightarrow> map_of (timeouts (setState tid' ns m)) tid = None"
  "controllers (setState tid' ns m) = controllers m"
  "timers (setState tid' ns m) = timers m"
  "runs (setState tid' ns m) = runs m"
  by (simp_all add: setState_cases evictOldTasks_eq emit_eq map_of_keep)

lemma timerFires_idle:
  assumes "h < length (timers m)" "snd (timers m ! h)" "fst (timers m ! h) = tid"
    and "statusOf tid m \<noteq> Some running"
  shows "timerFires h now m = m\<lparr> timers := unschedule h (timers m) \<rparr>"
  using assms
  by (auto simp: timerFires_def timeoutCallback_def statusOf_def getState_def split: option.split)

lemma timerFires_running:
  assumes "h < length (timers m)" "snd (timers m ! h)" "fst (timers m ! h) = tid"
    and "statusOf tid m = Some running"
  shows "timerFires h now m = setState tid (Timed_out tid now) (timed_out_pre h tid m)"
  using assms
  by (auto simp: timerFires_def timeoutCallback_def statusOf_def getState_def Let_def
        timed_out_pre_def split: option.split)

lemma timerFires_keeps:
  assumes "statusOf tid m \<noteq> Some running"
  shows "getState tid (timerFires h now m) = getState tid m \<or>
         getState tid (timerFires h now m) = None"
proof (cases "h < length (timers m) \<and> snd (timers m ! h)")
  case False
  then show ?thesis by (auto simp: timerFires_def)
next
  case True
  let ?tid' = "fst (timers m ! h)"
  show ?thesis
  proof (cases "statusOf ?tid' m = Some running")
    case False
    with True show ?thesis
      by (simp add: timerFires_idle getState_def)
  next
    case running: True
    with assms have "tid \<noteq> ?tid'" by auto
    from setState_other [OF this, of "Timed_out ?tid' now" "timed_out_pre h ?tid' m"]
    show ?thesis
      using True running by (simp add: timerFires_running getState_def timed_out_pre_def)
  qed
qed

lemma timers_keep:
  "statusOf tid m \<noteq> Some running \<Longrightarrow>
   getState tid (exec (timer_actions fires) m) = getState tid m \<or>
   getState tid (exec (timer_actions fires) m) = None"
proof (induction fires arbitrary: m)
  case Nil
  show ?case by (simp add: exec_def timer_actions_def)
next
  case (Cons f fires)
  let ?m' = "timerFires (fst f) (snd f) m"
  have ex: "exec (timer_actions (f # fires)) m = exec (timer_actions fires) ?m'"
    by (simp add: exec_def timer_actions_def)
  from timerFires_keeps [OF Cons.prems, of "fst f" "snd f"]
  have step: "getState tid ?m' = getState tid m \<or> getState tid ?m' = None" .
  then have "statusOf tid ?m' \<noteq> Some running"
    using Cons.prems by (auto simp: statusOf_def)
  from Cons.IH [OF this] step show ?case
    unfolding ex by auto
qed

text \<open>
  Claim C4. When a scheduled timer fires and the task it was set for is not in status
  \<open>running\<close> (or has no state), nothing changes but the timer itself. When the task is
  \<open>running\<close>, the callback aborts and drops the task's controller, drops the timer
  reference and calls \<^verbatim>\<open>setState\<close> with \<open>timed_out\<close> and \<open>lastRun = now\<close>, which is accepted: every
  subscriber gets the event, and the stored state is the new one unless the eviction that
  follows removes the task. Consequently, for a task whose status is not \<open>running\<close>, for
  instance one that has completed, any sequence of timers firing leaves its state as it
  is (or evicts it on behalf of another task): it never becomes \<open>timed_out\<close>.
\<close>

theorem timeout_spec:
  "(h < length (timers m) \<and> snd (timers m ! h) \<and> fst (timers m ! h) = tid \<longrightarrow>
     (statusOf tid m \<noteq> Some running \<longrightarrow>
        timerFires h now m = m\<lparr> timers := unschedule h (timers m) \<rparr>) \<and>
     (statusOf tid m = Some running \<longrightarrow>
        timerFires h now m = setState tid (Timed_out tid now) (timed_out_pre h tid m) \<and>
        accepted tid (Timed_out tid now) (timed_out_pre h tid m) \<and>
        calls (timerFires h now m) =
          calls m @
          map (\<lambda>cb. (fst cb, \<lparr> taskId = tid, ev_state = Timed_out tid now, eventId = nextEventId m \<rparr>))
            (subscribers m) \<and>
        (getState tid (timerFires h now m) = Some (Timed_out tid now) \<or>
         getState tid (timerFires h now m) = None) \<and>
        map_of (abortControllers (timerFires h now m)) tid = None \<and>
        map_of (timeouts (timerFires h now m)) tid = None \<and>
        (\<forall>c. map_of (abortControllers m) tid = Some c \<longrightarrow>
           controllers (timerFires h now m) = abort c (controllers m)))) \<and>
   (\<forall>tid' fires. statusOf tid' m \<noteq> Some running \<longrightarrow>
      getState tid' (exec (timer_actions fires) m) = getState tid' m \<or>
      getState tid' (exec (timer_actions fires) m) = None)"
proof (intro conjI impI allI; (elim conjE)?)
  fix tid' fires
  assume "statusOf tid' m \<noteq> Some running"
  then show "getState tid' (exec (timer_actions fires) m) = getState tid' m \<or>
      getState tid' (exec (timer_actions fires) m) = None"
    by (rule timers_keep)
next
  assume "h < length (timers m)" "snd (timers m ! h)" "fst (timers m ! h) = tid"
    "statusOf tid m \<noteq> Some running"
  then show "timerFires h now m = m\<lparr> timers := unschedule h (timers m) \<rparr>"
    by (rule timerFires_idle)
next
  assume h: "h < length (timers m)" "snd (timers m ! h)" "fst (timers m ! h) = tid"
    and run: "statusOf tid m = Some running"
  let ?pre = "timed_out_pre h tid m"
  from h run show eq: "timerFires h now m = setState tid (Timed_out tid now) ?pre"
    by (rule timerFires_running)
  from run show acc: "accepted tid (Timed_out tid now) ?pre"
    by (auto simp: accepted_def rejected_def statusOf_def getState_def timed_out_pre_def)
  show "calls (timerFires h now m) =
          calls m @
          map (\<lambda>cb. (fst cb, \<lparr> taskId = tid, ev_state = Timed_out tid now, eventId = nextEventId m \<rparr>))
            (subscribers m)"
    using acc by (simp add: eq setState_ids event_of_def timed_out_pre_def)
  show "getState tid (timerFires h now m) = Some (Timed_out tid now) \<or>
         getState tid (timerFires h now m) = None"
    using setState_self [OF acc] by (simp add: eq getState_def)
  show "map_of (abortControllers (timerFires h now m)) tid = None"
    unfolding eq by (rule setState_maps) (simp add: timed_out_pre_def delete_conv')
  show "map_of (timeouts (timerFires h now m)) tid = None"
    unfolding eq by (rule setState_maps) (simp add: timed_out_pre_def delete_conv')
  fix c assume "map_of (abortControllers m) tid = Some c"
  then show "controllers (timerFires h now m) = abort c (controllers m)"
    by (simp add: eq setState_maps timed_out_pre_def)
qed

theorem timeout_spec_witness:
  "(1 < length (timers m_two) \<and> snd (timers m_two ! 1) \<and> fst (timers m_two ! 1) = ''d'') \<and>
   statusOf ''d'' m_two = Some running \<and>
   getState ''d'' (timerFires 1 60 m_two) = Some (Timed_out ''d'' 60) \<and>
   map_of (abortControllers (timerFires 1 60 m_two)) ''d'' = None \<and>
   controllers (timerFires 1 60 m_two) ! 1 \<and>
   (0 < length (timers m_leak) \<and> snd (timers m_leak ! 0) \<and> fst (timers m_leak ! 0) = ''c'') \<and>
   statusOf ''c'' m_leak \<noteq> Some running \<and>
   timerFires 0 9 m_leak = m_leak\<lparr> timers := unschedule 0 (timers m_leak) \<rparr> \<and>
   statusOf ''c'' m_two \<noteq> Some running \<and>
   getState ''c'' m_two = Some (Completed ''c'' 7) \<and>
   getState ''c'' (exec (timer_actions [(0, 200), (1, 200)]) m_two) = Some (Completed ''c'' 7) \<and>
   getState ''d'' (exec (timer_actions [(0, 200), (1, 200)]) m_two) = Some (Timed_out ''d'' 200)"
proof -
  have live: "1 < length (timers m_two) \<and> snd (timers m_two ! 1) \<and> fst (timers m_two ! 1) = ''d''"
    by code_simp
  have run: "statusOf ''d'' m_two = Some running"
    by code_simp
  have out: "getState ''d'' (timerFires 1 60 m_two) = Some (Timed_out ''d'' 60)"
    by code_simp
  have ab: "controllers (timerFires 1 60 m_two) ! 1"
    by code_simp
  have leak: "0 < length (timers m_leak) \<and> snd (timers m_leak ! 0) \<and> fst (timers m_leak ! 0) = ''c''"
    by code_simp
  have gone: "statusOf ''c'' m_leak \<noteq> Some running"
    by code_simp
  have idle: "statusOf ''c'' m_two \<noteq> Some running"
    by code_simp
  have c: "getState ''c'' m_two = Some (Completed ''c'' 7)"
    by code_simp
  have d: "getState ''d'' (exec (timer_actions [(0, 200), (1, 200)]) m_two) = Some (Timed_out ''d'' 200)"
    by code_simp
  have c': "getState ''c'' (exec (timer_actions [(0, 200), (1, 200)]) m_two) \<noteq> None"
    by code_simp
  from timeout_spec [of 1 m_two "''d''" 60, THEN conjunct1, THEN mp, OF live] run
  have 1: "map_of (abortControllers (timerFires 1 60 m_two)) ''d'' = None"
    by blast
  from timeout_spec [of 0 m_leak "''c''" 9, THEN conjunct1, THEN mp, OF leak] gone
  have 2: "timerFires 0 9 m_leak = m_leak\<lparr> timers := unschedule 0 (timers m_leak) \<rparr>"
    by blast
  from timeout_spec [of 0 m_two "''c''" 0, THEN conjunct2, rule_format, OF idle,
    of "[(0, 200), (1, 200)]"] c c'
  have 3: "getState ''c'' (exec (timer_actions [(0, 200), (1, 200)]) m_two) = Some (Completed ''c'' 7)"
    by metis
  from live run out ab leak gone idle c d 1 2 3 show ?thesis
    by blast
qed

section \<open>cancel\<close>

lemma setState_fields:
  "state (setState tid ns m) =
     (if accepted tid ns m then keep (evicted_by tid ns m) (AList.update tid ns (state m))
      else state m)"
  "tasks (setState tid ns m) = keep (evicted_by tid ns m) (tasks m)"
  "abortControllers (setState tid ns m) = keep (evicted_by tid ns m) (abortControllers m)"
  "runGeneration (setState tid ns m) = keep (evicted_by tid ns m) (runGeneration m)"
  "timeouts (setState tid ns m) = keep (evicted_by tid ns m) (timeouts m)"
  "maxHistory (setState tid ns m) = maxHistory m"
  "debug (setState tid ns m) = debug m"
  by (simp_all add: setState_cases evictOldTasks_eq emit_eq evicted_by_def)



lemma length_unschedule [simp]: "length (unschedule h ts) = length ts"
  by (simp add: unschedule_def)

lemma length_abort [simp]: "length (abort c cs) = length cs"
  by (simp add: abort_def)

lemma clearTimeout_length [simp]: "length (timers (clearTimeout tid m)) = length (timers m)"
  by (simp add: clearTimeout_def split: option.split)











lemma ctrl_ok_frame:
  "ctrl_ok k (m\<lparr> runs := rs \<rparr>) = ctrl_ok k m"
  "ctrl_ok k (m\<lparr> console := cl \<rparr>) = ctrl_ok k m"
  "ctrl_ok k (m\<lparr> subscribers := sb \<rparr>) = ctrl_ok k m"
  "ctrl_ok k (m\<lparr> runGeneration := rg \<rparr>) = ctrl_ok k m"
  by (simp_all add: ctrl_ok_def statusOf_def getState_def)

lemma ctrl_inv_frame [simp]:
  "ctrl_inv (m\<lparr> runs := rs \<rparr>) = ctrl_inv m"
  "ctrl_inv (m\<lparr> console := cl \<rparr>) = ctrl_inv m"
  "ctrl_inv (m\<lparr> subscribers := sb \<rparr>) = ctrl_inv m"
  "ctrl_inv (m\<lparr> runGeneration := rg \<rparr>) = ctrl_inv m"
  by (simp_all add: ctrl_inv_def ctrl_ok_frame)













lemma evicted_by_off: "maxHistory m = 0 \<Longrightarrow> evicted_by tid ns m = []"
  by (simp add: evicted_by_def evicted_def emit_eq)






section \<open>Stale runs\<close>

text \<open>
  A handler execution whose generation differs from the stored one has no effect: its
  \<^verbatim>\<open>ctx.progress\<close> and its settlement leave the manager as it is. Without a history bound
  and without \<^verbatim>\<open>dispose\<close>, no generation counter is ever deleted, and then every handler
  execution that has been followed by a later \<^verbatim>\<open>start\<close> of the same task is stale for good
  (lemma \<open>superseded_run_silent\<close>).
\<close>

lemma stale_noop:
  "isStale r m \<Longrightarrow> ctx_progress r msg cur tot m = m \<and> runTask_settled r out now m = m"
  by (simp add: ctx_progress_def runTask_settled_def Let_def)

lemma gen_ok_start:
  assumes "gen_ok ks rg"
  shows "gen_ok (ks @ [(tid, next_generation tid rg)]) (AList.update tid (next_generation tid rg) rg)"
proof -
  let ?ng = "next_generation tid rg"
  from assms have le: "\<And>k. k \<in> set ks \<Longrightarrow> \<exists>g. map_of rg (fst k) = Some g \<and> snd k \<le> g"
    and ord: "\<And>i j. i < j \<Longrightarrow> j < length ks \<Longrightarrow> fst (ks ! i) = fst (ks ! j) \<Longrightarrow>
        snd (ks ! i) < snd (ks ! j)"
    by (auto simp: gen_ok_def)
  have older: "snd k < ?ng" if "k \<in> set ks" "fst k = tid" for k
    using le [OF that(1)] that(2) by (auto simp: next_generation_def)
  have 1: "\<exists>g. map_of (AList.update tid ?ng rg) (fst k) = Some g \<and> snd k \<le> g"
    if "k \<in> set ks \<or> k = (tid, ?ng)" for k
  proof (cases "fst k = tid")
    case True
    from that have "snd k \<le> ?ng"
    proof
      assume "k \<in> set ks"
      from older [OF this True] show ?thesis by simp
    qed simp
    with True show ?thesis
      by (simp add: update_conv')
  next
    case False
    with that le [of k] show ?thesis
      by (auto simp: update_conv')
  qed
  have 2: "snd ((ks @ [(tid, ?ng)]) ! i) < snd ((ks @ [(tid, ?ng)]) ! j)"
    if "i < j" "j < length (ks @ [(tid, ?ng)])"
      "fst ((ks @ [(tid, ?ng)]) ! i) = fst ((ks @ [(tid, ?ng)]) ! j)" for i j
  proof (cases "j < length ks")
    case True
    with that ord [of i j] show ?thesis
      by (simp add: nth_append)
  next
    case False
    with that have j: "j = length ks" and i: "i < length ks"
      by simp_all
    from i that(3) have "ks ! i \<in> set ks" "fst (ks ! i) = tid"
      by (simp_all add: j nth_append)
    from older [OF this] i show ?thesis
      by (simp add: j nth_append)
  qed
  show ?thesis
    unfolding gen_ok_def
  proof (intro conjI ballI allI impI)
    fix k assume "k \<in> set (ks @ [(tid, ?ng)])"
    then have "k \<in> set ks \<or> k = (tid, ?ng)" by auto
    then show "\<exists>g. map_of (AList.update tid ?ng rg) (fst k) = Some g \<and> snd k \<le> g"
      by (rule 1)
  next
    fix i j
    assume "i < j \<and> j < length (ks @ [(tid, ?ng)]) \<and>
        fst ((ks @ [(tid, ?ng)]) ! i) = fst ((ks @ [(tid, ?ng)]) ! j)"
    then show "snd ((ks @ [(tid, ?ng)]) ! i) < snd ((ks @ [(tid, ?ng)]) ! j)"
      using 2 [of i j] by blast
  qed
qed

lemma run_key_settled [simp]: "run_key (r\<lparr> settled := b \<rparr>) = run_key r"
  by (simp add: run_key_def)

lemma map_run_key_settled:
  "map run_key (rs[i := (rs ! i)\<lparr> settled := b \<rparr>]) = map run_key rs"
proof (cases "i < length rs")
  case True
  then show ?thesis
    by (simp add: map_update list_update_same_conv)
next
  case False
  then have "length rs \<le> i" by simp
  then have "rs[i := (rs ! i)\<lparr> settled := b \<rparr>] = rs"
    by (rule list_update_beyond)
  then show ?thesis by (simp only:)
qed

lemma gen_frame:
  "maxHistory m = 0 \<Longrightarrow> runGeneration (setState tid ns m) = runGeneration m"
  "runs (setState tid ns m) = runs m"
  "runGeneration (clearTimeout tid m) = runGeneration m"
  "runs (clearTimeout tid m) = runs m"
  by (simp_all add: setState_fields evicted_by_off setState_maps clearTimeout_frame)


lemma gen_inv_start: "gen_inv m \<Longrightarrow> gen_inv (start tid m)"
proof (cases "\<exists>task cur. map_of (tasks m) tid = Some task \<and>
    map_of (state m) tid = Some cur \<and> status cur \<noteq> running")
  case False
  assume "gen_inv m"
  with False show ?thesis
    by (auto simp: start_def gen_inv_def split: option.split)
next
  case True
  assume inv: "gen_inv m"
  from True obtain task cur where task: "map_of (tasks m) tid = Some task"
    and cur: "map_of (state m) tid = Some cur" "status cur \<noteq> running"
    by blast
  let ?ng = "next_generation tid (runGeneration m)"
  have rg: "runGeneration (start tid m) = AList.update tid ?ng (runGeneration m)"
    using task cur
    by (simp add: start_def Let_def setState_fields evicted_by_def clearTimeout_frame
          next_generation_def TERMINAL_STATUSES_def)
  have rs: "map run_key (runs (start tid m)) = map run_key (runs m) @ [(tid, ?ng)]"
    using task cur
    by (simp add: start_def Let_def setState_maps clearTimeout_frame next_generation_def
          run_key_def)
  from inv show ?thesis
    unfolding gen_inv_def rg rs by (rule gen_ok_start)
qed

lemma gen_inv_step:
  assumes inv: "gen_inv m" and off: "maxHistory m = 0" and a: "a \<noteq> Dispose"
  shows "gen_inv (step a m)"
proof (cases a)
  case (Register tid h t)
  with inv show ?thesis
    by (simp add: register_def gen_inv_def)
next
  case (Start tid)
  with inv show ?thesis
    by (simp add: gen_inv_start)
next
  case (Cancel tid now)
  have "runGeneration (cancel tid now m) = runGeneration m" "runs (cancel tid now m) = runs m"
    using off by (simp_all add: cancel_def Let_def gen_frame clearTimeout_frame split: option.split)
  with inv show ?thesis
    unfolding Cancel by (simp add: gen_inv_def)
next
  case (Subscribe cb)
  with inv show ?thesis
    by (simp add: subscribe_def gen_inv_def)
next
  case (Unsubscribe sid)
  with inv show ?thesis
    by (simp add: unsubscribe_def gen_inv_def)
next
  case (Progress r msg cur tot)
  have "runGeneration (step a m) = runGeneration m" "runs (step a m) = runs m"
    using off unfolding Progress
    by (simp_all add: ctx_progress_def gen_frame split: option.split)
  with inv show ?thesis
    by (simp add: gen_inv_def)
next
  case (Settles r out now)
  have "runGeneration (step a m) = runGeneration m"
    "map run_key (runs (step a m)) = map run_key (runs m)"
    using off unfolding Settles
    by (simp_all add: runTask_settled_def Let_def gen_frame clearTimeout_frame
          map_run_key_settled split: outcome.split)
  with inv show ?thesis
    by (simp add: gen_inv_def)
next
  case (TimerFires h now)
  have "runGeneration (step a m) = runGeneration m" "runs (step a m) = runs m"
    using off unfolding TimerFires
    by (simp_all add: timerFires_def timeoutCallback_def Let_def gen_frame split: option.split)
  with inv show ?thesis
    by (simp add: gen_inv_def)
next
  case Dispose
  with a show ?thesis by simp
qed


lemma maxHistory_step: "maxHistory (step a m) = maxHistory m"
proof (cases a)
  case (Register tid h t)
  then show ?thesis by (simp add: register_def)
next
  case (Start tid)
  then show ?thesis
    by (simp add: start_def Let_def setState_fields clearTimeout_frame split: option.split)
next
  case (Cancel tid now)
  then show ?thesis
    by (simp add: cancel_def Let_def setState_fields clearTimeout_frame split: option.split)
next
  case (Subscribe cb)
  then show ?thesis by (simp add: subscribe_def)
next
  case (Unsubscribe sid)
  then show ?thesis by (simp add: unsubscribe_def)
next
  case (Progress r msg cur tot)
  then show ?thesis
    by (simp add: ctx_progress_def setState_fields split: option.split)
next
  case (Settles r out now)
  then show ?thesis
    by (simp add: runTask_settled_def Let_def setState_fields clearTimeout_frame
          split: outcome.split)
next
  case (TimerFires h now)
  then show ?thesis
    by (simp add: timerFires_def timeoutCallback_def Let_def setState_fields
          split: option.split)
next
  case Dispose
  then show ?thesis by (simp add: dispose_def)
qed

lemma gen_inv_exec:
  assumes "maxHistory (new_TaskManager opts) = 0" "Dispose \<notin> set acts"
  shows "gen_inv (exec acts (new_TaskManager opts)) \<and>
         maxHistory (exec acts (new_TaskManager opts)) = 0"
  using assms(2)
proof (induction acts rule: rev_induct)
  case Nil
  show ?case
    using assms(1) by (simp add: exec_def gen_inv_def gen_ok_def new_TaskManager_def)
next
  case (snoc a acts)
  then have "gen_inv (exec acts (new_TaskManager opts))"
    "maxHistory (exec acts (new_TaskManager opts)) = 0" "a \<noteq> Dispose"
    by auto
  then show ?case
    by (simp add: exec_snoc gen_inv_step maxHistory_step)
qed

lemma superseded_run_silent:
  assumes off: "maxHistory (new_TaskManager opts) = 0" and nd: "Dispose \<notin> set acts"
    and m: "m = exec acts (new_TaskManager opts)"
    and ij: "i < j" "j < length (runs m)" "run_taskId (runs m ! i) = run_taskId (runs m ! j)"
  shows "isStale (runs m ! i) m"
    and "step (Progress i msg cur tot) m = m"
    and "step (Settles i out now) m =
          (if settled (runs m ! i) then m
           else m\<lparr> runs := (runs m)[i := (runs m ! i)\<lparr> settled := True \<rparr>] \<rparr>)"
proof -
  from gen_inv_exec [OF off nd] m have inv: "gen_inv m"
    by simp
  let ?ks = "map run_key (runs m)"
  from inv have le: "\<And>k. k \<in> set ?ks \<Longrightarrow>
      \<exists>g. map_of (runGeneration m) (fst k) = Some g \<and> snd k \<le> g"
    and ord: "\<And>i j. i < j \<Longrightarrow> j < length ?ks \<Longrightarrow> fst (?ks ! i) = fst (?ks ! j) \<Longrightarrow>
        snd (?ks ! i) < snd (?ks ! j)"
    by (auto simp: gen_inv_def gen_ok_def)
  from ij have i: "i < length (runs m)" by simp
  from ord [of i j] ij i
  have lt: "run_generation (runs m ! i) < run_generation (runs m ! j)"
    by (simp add: run_key_def)
  from le [of "run_key (runs m ! j)"] ij(2)
  obtain g where g: "map_of (runGeneration m) (run_taskId (runs m ! j)) = Some g"
    "run_generation (runs m ! j) \<le> g"
    by (auto simp: run_key_def)
  with lt ij(3) show stale: "isStale (runs m ! i) m"
    by (simp add: isStale_def)
  then show "step (Progress i msg cur tot) m = m"
    by (simp add: stale_noop)
  let ?m' = "m\<lparr> runs := (runs m)[i := (runs m ! i)\<lparr> settled := True \<rparr>] \<rparr>"
  from stale have "isStale (runs m ! i) ?m'"
    by (simp add: isStale_def)
  then have "runTask_settled (runs m ! i) out now ?m' = ?m'"
    by (simp add: stale_noop)
  with i show "step (Settles i out now) m =
          (if settled (runs m ! i) then m else ?m')"
    by simp
qed

text \<open>
  Claim C1 says that after \<^verbatim>\<open>cancel\<close> and \<^verbatim>\<open>start\<close> of a task, the superseded execution's
  later \<^verbatim>\<open>progress\<close> calls produce no event and its settlement does not disturb the newer
  run. The code loses this when the task is evicted in between: \<^verbatim>\<open>evictOldTasks\<close> deletes
  the generation counter, a new registration of the id starts again at generation 1, and
  the first execution, launched with generation 1, is taken for the current one. In the
  run below (history bound 1) execution 0 of task \<open>a\<close> is canceled and superseded by
  execution 1, which completes; \<open>a\<close> is evicted when \<open>b\<close> completes, registered again and
  started (execution 3). Then a \<^verbatim>\<open>progress\<close> call of execution 0 is delivered to the
  subscriber and overwrites the state of the new run, and the settlement of execution 0
  drops the controller reference of the new run.
\<close>

theorem stale_run_leaks:
  "map (\<lambda>r. (run_taskId r, run_generation r)) (runs m_restarted) =
     [(''a'', 1), (''a'', 2), (''b'', 1), (''a'', 1)] \<and>
   \<not> isStale (runs m_restarted ! 0) m_restarted \<and>
   getState ''a'' m_restarted = Some (Running ''a'' (Some (TaskProgress ''Starting...'' None None))) \<and>
   calls (step (Progress 0 ''late'' None None) m_restarted) =
     calls m_restarted @
     [(0, \<lparr> taskId = ''a'', ev_state = Running ''a'' (Some (TaskProgress ''late'' None None)),
            eventId = 8 \<rparr>)] \<and>
   getState ''a'' (step (Progress 0 ''late'' None None) m_restarted) =
     Some (Running ''a'' (Some (TaskProgress ''late'' None None))) \<and>
   map_of (abortControllers m_restarted) ''a'' = Some 3 \<and>
   map_of (abortControllers (step (Settles 0 Resolved 9) m_restarted)) ''a'' = None"
  by code_simp

end
